theory Spec2Isabelle
  imports Complex_Main
begin

section \<open>Time\<close>

text \<open>
  A JavaScript \<^verbatim>\<open>Date\<close> is its number of milliseconds since the epoch, an integer.
  The server's local time zone is taken to be UTC, without daylight-saving shifts, so that
  \<^verbatim>\<open>d.setHours(0, 0, 0, 0)\<close> rounds a timestamp down to a multiple of one day and
  \<^verbatim>\<open>d.setDate(d.getDate() - 1)\<close> subtracts one day. The current time
  (\<^verbatim>\<open>new Date()\<close>) is an argument \<open>now\<close> of every function that reads the clock.
\<close>

type_synonym date = int

definition msPerDay :: int where
  "msPerDay = 24 * 60 * 60 * 1000"

definition startOfDay :: "date \<Rightarrow> date" where
  "startOfDay t = t - t mod msPerDay"

definition dayOf :: "date \<Rightarrow> int" where
  "dayOf t = t div msPerDay"

section \<open>The Habit model\<close>

text \<open>
  A collection is the list of its documents and the \<^verbatim>\<open>_id\<close> of a document is its
  position: no operation of the repository removes a document (habits and groups are
  soft-deleted). Field names carry the initial of their schema, since the three schemas
  share names such as \<^verbatim>\<open>creator\<close> and \<^verbatim>\<open>isActive\<close>.
\<close>

type_synonym objectId = nat

definition findById :: "objectId \<Rightarrow> 'a list \<Rightarrow> 'a option" where
  "findById i xs = (if i < length xs then Some (xs ! i) else None)"

definition updateById :: "objectId \<Rightarrow> ('a \<Rightarrow> 'a) \<Rightarrow> 'a list \<Rightarrow> 'a list" where
  "updateById i f xs = (if i < length xs then xs[i := f (xs ! i)] else xs)"

text \<open>
  The schema option \<^verbatim>\<open>timestamps: true\<close>, which all four schemas set, adds the fields
  \<^verbatim>\<open>createdAt\<close> and \<^verbatim>\<open>updatedAt\<close> to a document. Mongoose stamps both when a new
  document is saved, stamps \<^verbatim>\<open>updatedAt\<close> when \<^verbatim>\<open>save\<close> is called on a document that was
  modified since it was loaded, and stamps \<^verbatim>\<open>updatedAt\<close> on every document that
  \<^verbatim>\<open>findByIdAndUpdate\<close> or \<^verbatim>\<open>updateMany\<close> writes. These stamps come before the
  \<^verbatim>\<open>pre('save')\<close> hooks of the schema and after validation. One request reads the clock
  once.

  The fields of \<^verbatim>\<open>habitSchema\<close>. The duration counts days and is an integer; the other
  numbers and the rates are exact rationals, where JavaScript computes in double precision.
\<close>

record habit =
  h_name :: string
  h_description :: string
  h_creator :: objectId
  h_goal :: string
  h_frequency :: string
  h_duration :: int
  h_isActive :: bool
  h_category :: string
  h_targetValue :: rat
  h_unit :: string
  h_completionDates :: "date list"
  h_createdAt :: date
  h_updatedAt :: date

text \<open>
  The virtual \<^verbatim>\<open>completionRate\<close>, with its locals \<^verbatim>\<open>daysSinceCreation\<close> and
  \<^verbatim>\<open>expectedCompletions\<close> as functions of their own.
\<close>

definition daysSinceCreation :: "date \<Rightarrow> habit \<Rightarrow> int" where
  "daysSinceCreation now h = (now - h_createdAt h) div msPerDay + 1"

definition expectedCompletions :: "date \<Rightarrow> habit \<Rightarrow> int" where
  "expectedCompletions now h = min (daysSinceCreation now h) (h_duration h)"

definition completionRate :: "date \<Rightarrow> habit \<Rightarrow> rat" where
  "completionRate now h =
     (if h_completionDates h = [] then 0
      else if expectedCompletions now h = 0 then 0
      else min (of_nat (length (h_completionDates h)) / of_int (expectedCompletions now h) * 100)
             100)"

text \<open>
  The loop of the virtual \<^verbatim>\<open>currentStreak\<close>: the dates still to visit, \<^verbatim>\<open>checkDate\<close>
  and \<^verbatim>\<open>streak\<close>. The \<^verbatim>\<open>break\<close> returns the streak reached.
\<close>

fun streakLoop :: "date list \<Rightarrow> date \<Rightarrow> nat \<Rightarrow> nat" where
  "streakLoop [] checkDate streak = streak"
| "streakLoop (completionDate # rest) checkDate streak =
     (let completionDay = startOfDay completionDate in
      if completionDay = checkDate then streakLoop rest (checkDate - msPerDay) (streak + 1)
      else if completionDay = checkDate + 24 * 60 * 60 * 1000
        then streakLoop rest (checkDate - msPerDay) (streak + 1)
      else streak)"

definition currentStreak :: "date \<Rightarrow> date list \<Rightarrow> nat" where
  "currentStreak now completionDates =
     (if completionDates = [] then 0
      else let sortedDates = rev (sort completionDates);
               today = startOfDay now
           in streakLoop sortedDates today 0)"

section \<open>The Progress model\<close>

record progress =
  p_habit :: objectId
  p_user :: objectId
  p_date :: date
  p_completed :: bool
  p_completedAt :: "date option"
  p_notes :: string
  p_value :: "rat option"
  p_streak :: int
  p_isLateEntry :: bool
  p_createdAt :: date
  p_updatedAt :: date

type_synonym ledger = "progress list"

text \<open>\<^verbatim>\<open>find({user, habit}).sort({date: -1}).limit(365)\<close>\<close>

definition findSorted :: "objectId \<Rightarrow> objectId \<Rightarrow> ledger \<Rightarrow> progress list" where
  "findSorted userId habitId db =
     take 365 (sort_key (\<lambda>e. - p_date e)
       (filter (\<lambda>e. p_user e = userId \<and> p_habit e = habitId) db))"

fun entryLoop :: "date \<Rightarrow> progress list \<Rightarrow> nat \<Rightarrow> nat" where
  "entryLoop today [] streak = streak"
| "entryLoop today (entry # rest) streak =
     (let entryDate = startOfDay (p_date entry);
          daysDiff = (today - entryDate) div (1000 * 60 * 60 * 24)
      in if daysDiff = int streak \<and> p_completed entry
         then entryLoop today rest (streak + 1)
         else streak)"

definition getCurrentStreak :: "date \<Rightarrow> objectId \<Rightarrow> objectId \<Rightarrow> ledger \<Rightarrow> nat" where
  "getCurrentStreak now userId habitId db =
     entryLoop (startOfDay now) (findSorted userId habitId db) 0"

text \<open>
  \<^verbatim>\<open>calculateCompletionRate\<close>: the window starts \<open>days\<close> calendar days before now.
\<close>

definition inWindow :: "date \<Rightarrow> int \<Rightarrow> objectId \<Rightarrow> objectId \<Rightarrow> progress \<Rightarrow> bool" where
  "inWindow now days userId habitId e \<longleftrightarrow>
     p_user e = userId \<and> p_habit e = habitId \<and>
     now - days * msPerDay \<le> p_date e \<and> p_date e \<le> now"

definition calculateCompletionRate ::
  "date \<Rightarrow> objectId \<Rightarrow> objectId \<Rightarrow> int \<Rightarrow> ledger \<Rightarrow> rat" where
  "calculateCompletionRate now userId habitId days db =
     (let totalEntries = length (filter (inWindow now days userId habitId) db);
          completedEntries =
            length (filter (\<lambda>e. inWindow now days userId habitId e \<and> p_completed e) db)
      in if totalEntries > 0 then of_nat completedEntries / of_nat totalEntries * 100 else 0)"

section \<open>Saving progress entries\<close>

text \<open>
  The string setter \<^verbatim>\<open>trim: true\<close>, over ASCII white space.
\<close>

definition isSpace :: "char \<Rightarrow> bool" where
  "isSpace c \<longleftrightarrow> c \<in> set [CHR '' '', CHR 0x09, CHR 0x0A, CHR 0x0B, CHR 0x0C, CHR 0x0D]"

definition trim :: "string \<Rightarrow> string" where
  "trim s = rev (dropWhile isSpace (rev (dropWhile isSpace s)))"

text \<open>
  What a model operation can throw: a failed schema validation, a violated unique index,
  and the error of \<^verbatim>\<open>addMember\<close>.
\<close>

datatype exn = ValidationError | DuplicateKeyError | GroupIsFullError

text \<open>The validators of \<^verbatim>\<open>progressSchema\<close>: \<^verbatim>\<open>maxlength\<close> of the notes, \<^verbatim>\<open>min: 0\<close>
  of value and streak.\<close>

definition progress_valid :: "progress \<Rightarrow> bool" where
  "progress_valid e \<longleftrightarrow>
     length (p_notes e) \<le> 500 \<and>
     (case p_value e of None \<Rightarrow> True | Some v \<Rightarrow> 0 \<le> v) \<and>
     0 \<le> p_streak e"

text \<open>\<^verbatim>\<open>progressSchema.pre('save')\<close>, statement by statement.\<close>

definition progress_pre_save :: "date \<Rightarrow> progress \<Rightarrow> progress" where
  "progress_pre_save now this =
     (let e1 = (if p_completed this \<and> p_completedAt this = None
                then this\<lparr>p_completedAt := Some now\<rparr> else this);
          e2 = (if \<not> p_completed e1 \<and> p_completedAt e1 \<noteq> None
                then e1\<lparr>p_completedAt := None\<rparr> else e1);
          e3 = (case p_completedAt e2 of
                  Some completedAt \<Rightarrow>
                    if p_completed e2
                    then e2\<lparr>p_isLateEntry := (startOfDay completedAt \<noteq> startOfDay (p_date e2))\<rparr>
                    else e2
                | None \<Rightarrow> e2)
      in e3\<lparr>p_date := startOfDay (p_date e3)\<rparr>)"

text \<open>
  The unique index \<^verbatim>\<open>{habit: 1, user: 1, date: 1}\<close>. Saving validates, stamps, runs the
  hook and writes, unless another document already has the key: \<open>progress_save\<close> writes
  the document that was loaded from position \<open>i\<close> back there, \<open>progress_create\<close> inserts a
  new one.
\<close>

definition indexKey :: "progress \<Rightarrow> objectId \<times> objectId \<times> date" where
  "indexKey e = (p_habit e, p_user e, p_date e)"

definition stampModified :: "date \<Rightarrow> progress \<Rightarrow> progress \<Rightarrow> progress" where
  "stampModified now loaded doc = (if doc \<noteq> loaded then doc\<lparr>p_updatedAt := now\<rparr> else doc)"

definition progress_save :: "date \<Rightarrow> nat \<Rightarrow> progress \<Rightarrow> ledger \<Rightarrow> exn + progress \<times> ledger" where
  "progress_save now i doc db =
     (if \<not> progress_valid doc then Inl ValidationError
      else let stamped = stampModified now (db ! i) doc;
               saved = progress_pre_save now stamped in
        if indexKey saved \<in> set (map indexKey (take i db @ drop (Suc i) db))
        then Inl DuplicateKeyError
        else Inr (saved, db[i := saved]))"

definition progress_create :: "date \<Rightarrow> progress \<Rightarrow> ledger \<Rightarrow> exn + progress \<times> ledger" where
  "progress_create now doc db =
     (if \<not> progress_valid doc then Inl ValidationError
      else let stamped = doc\<lparr>p_createdAt := now, p_updatedAt := now\<rparr>;
               saved = progress_pre_save now stamped in
        if indexKey saved \<in> set (map indexKey db) then Inl DuplicateKeyError
        else Inr (saved, db @ [saved]))"

text \<open>The instance methods, on the document at position \<open>i\<close> of the ledger.\<close>

definition toggleCompletion :: "date \<Rightarrow> nat \<Rightarrow> ledger \<Rightarrow> exn + progress \<times> ledger" where
  "toggleCompletion now i db =
     (let this = db ! i in progress_save now i (this\<lparr>p_completed := \<not> p_completed this\<rparr>) db)"

definition markCompleted ::
  "date \<Rightarrow> rat option \<Rightarrow> string \<Rightarrow> nat \<Rightarrow> ledger \<Rightarrow> exn + progress \<times> ledger" where
  "markCompleted now val notes i db =
     (let e1 = (db ! i)\<lparr>p_completed := True, p_completedAt := Some now\<rparr>;
          e2 = (if val \<noteq> None then e1\<lparr>p_value := val\<rparr> else e1);
          e3 = (if notes \<noteq> [] then e2\<lparr>p_notes := trim notes\<rparr> else e2)
      in progress_save now i e3 db)"

definition markIncomplete :: "date \<Rightarrow> nat \<Rightarrow> ledger \<Rightarrow> exn + progress \<times> ledger" where
  "markIncomplete now i db =
     progress_save now i ((db ! i)\<lparr>p_completed := False, p_completedAt := None\<rparr>) db"

text \<open>\<^verbatim>\<open>findOne\<close>: the position of the first document that matches.\<close>

fun findIndex :: "('a \<Rightarrow> bool) \<Rightarrow> 'a list \<Rightarrow> nat option" where
  "findIndex P [] = None"
| "findIndex P (x # xs) = (if P x then Some 0 else map_option Suc (findIndex P xs))"

definition sameDay :: "objectId \<Rightarrow> objectId \<Rightarrow> date \<Rightarrow> progress \<Rightarrow> bool" where
  "sameDay userId habitId targetDate e \<longleftrightarrow>
     p_user e = userId \<and> p_habit e = habitId \<and>
     targetDate \<le> p_date e \<and> p_date e < targetDate + 24 * 60 * 60 * 1000"

text \<open>
  \<^verbatim>\<open>createOrUpdate\<close>; \<open>updateFields\<close> is its branch for an existing entry, up to the
  call of \<^verbatim>\<open>save\<close>.
\<close>

definition updateFields :: "date \<Rightarrow> bool \<Rightarrow> rat option \<Rightarrow> string \<Rightarrow> progress \<Rightarrow> progress" where
  "updateFields now completed val notes existingEntry =
     (let e1 = existingEntry\<lparr>p_completed := completed\<rparr>;
          e2 = (if val \<noteq> None then e1\<lparr>p_value := val\<rparr> else e1);
          e3 = (if notes \<noteq> [] then e2\<lparr>p_notes := trim notes\<rparr> else e2)
      in if completed \<and> p_completedAt e3 = None then e3\<lparr>p_completedAt := Some now\<rparr>
         else if \<not> completed then e3\<lparr>p_completedAt := None\<rparr>
         else e3)"

definition createOrUpdate ::
  "date \<Rightarrow> objectId \<Rightarrow> objectId \<Rightarrow> date \<Rightarrow> bool \<Rightarrow> rat option \<Rightarrow> string \<Rightarrow> ledger
   \<Rightarrow> exn + progress \<times> ledger" where
  "createOrUpdate now userId habitId date completed val notes db =
     (let targetDate = startOfDay date in
      case findIndex (sameDay userId habitId targetDate) db of
        Some i \<Rightarrow> progress_save now i (updateFields now completed val notes (db ! i)) db
      | None \<Rightarrow>
          progress_create now
            \<lparr>p_habit = habitId, p_user = userId, p_date = targetDate, p_completed = completed,
             p_completedAt = (if completed then Some now else None), p_notes = trim notes,
             p_value = val, p_streak = 0, p_isLateEntry = False,
             p_createdAt = now, p_updatedAt = now\<rparr> db)"

section \<open>The Group model\<close>

text \<open>
  The fields of \<^verbatim>\<open>groupSchema\<close> that the operations below read or write, and the two
  timestamps; the tags, the settings and the statistics are left out. The member limit is
  a \<^verbatim>\<open>Number\<close> with the validators \<^verbatim>\<open>min: 1\<close> and \<^verbatim>\<open>max: 1000\<close> only, so it need not be
  whole.
\<close>

record group =
  g_name :: string
  g_description :: string
  g_members :: "objectId list"
  g_habits :: "objectId list"
  g_creator :: objectId
  g_isPrivate :: bool
  g_maxMembers :: rat
  g_inviteCode :: "string option"
  g_isActive :: bool
  g_createdAt :: date
  g_updatedAt :: date

definition memberCount :: "group \<Rightarrow> nat" where
  "memberCount g = length (g_members g)"

definition isFull :: "group \<Rightarrow> bool" where
  "isFull g \<longleftrightarrow> of_nat (memberCount g) \<ge> g_maxMembers g"

definition group_valid :: "group \<Rightarrow> bool" where
  "group_valid g \<longleftrightarrow>
     1 \<le> length (g_name g) \<and> length (g_name g) \<le> 100 \<and>
     length (g_description g) \<le> 1000 \<and>
     1 \<le> g_maxMembers g \<and> g_maxMembers g \<le> 1000 \<and>
     (case g_inviteCode g of None \<Rightarrow> True | Some c \<Rightarrow> length c \<le> 20)"

text \<open>\<^verbatim>\<open>[...new Set(xs)]\<close>: the first occurrence of every element, in order.\<close>

definition dedupe :: "'a list \<Rightarrow> 'a list" where
  "dedupe xs = rev (remdups (rev xs))"

text \<open>
  \<^verbatim>\<open>groupSchema.pre('save')\<close>; the invite code that \<^verbatim>\<open>generateInviteCode\<close> draws at
  random is the argument \<open>code\<close>.
\<close>

definition group_pre_save :: "string \<Rightarrow> group \<Rightarrow> group" where
  "group_pre_save code this =
     (let g1 = (if (g_inviteCode this = None \<or> g_inviteCode this = Some []) \<and> \<not> g_isPrivate this
                then this\<lparr>g_inviteCode := Some code\<rparr> else this);
          g2 = (if g_creator g1 \<notin> set (g_members g1)
                then g1\<lparr>g_members := g_members g1 @ [g_creator g1]\<rparr> else g1);
          g3 = (if g_members g2 \<noteq> [] then g2\<lparr>g_members := dedupe (g_members g2)\<rparr> else g2);
          g4 = (if g_habits g3 \<noteq> [] then g3\<lparr>g_habits := dedupe (g_habits g3)\<rparr> else g3)
      in g4)"

text \<open>
  Saving a group validates, stamps and runs the hook: \<open>group_save\<close> for the document
  that was loaded as \<open>loaded\<close>, \<open>group_create\<close> for a new one.
\<close>

definition group_save :: "date \<Rightarrow> string \<Rightarrow> group \<Rightarrow> group \<Rightarrow> exn + group" where
  "group_save now code loaded g =
     (if group_valid g
      then Inr (group_pre_save code (if g \<noteq> loaded then g\<lparr>g_updatedAt := now\<rparr> else g))
      else Inl ValidationError)"

definition group_create :: "date \<Rightarrow> string \<Rightarrow> group \<Rightarrow> exn + group" where
  "group_create now code g =
     (if group_valid g
      then Inr (group_pre_save code (g\<lparr>g_createdAt := now, g_updatedAt := now\<rparr>))
      else Inl ValidationError)"

definition addMember :: "date \<Rightarrow> string \<Rightarrow> objectId \<Rightarrow> group \<Rightarrow> exn + group" where
  "addMember now code userId this =
     (if isFull this then Inl GroupIsFullError
      else group_save now code this
             (if userId \<notin> set (g_members this)
              then this\<lparr>g_members := g_members this @ [userId]\<rparr> else this))"

definition removeMember :: "date \<Rightarrow> string \<Rightarrow> objectId \<Rightarrow> group \<Rightarrow> exn + group" where
  "removeMember now code userId this =
     group_save now code this
       (this\<lparr>g_members := filter (\<lambda>member. member \<noteq> userId) (g_members this)\<rparr>)"

section \<open>The controllers\<close>

text \<open>
  A controller takes the authenticated user, the request and the store, and returns the
  response (status and message) with the store it leaves. An exception caught by the
  controller's \<^verbatim>\<open>catch\<close> is the response 500.
\<close>

record user =
  u_joinedGroups :: "objectId list"
  u_createdHabits :: "objectId list"
  u_updatedAt :: date

record store =
  st_users :: "user list"
  st_habits :: "habit list"
  st_groups :: "group list"
  st_progress :: ledger

datatype response = Response nat string


record group_body =
  gb_name :: "string option"
  gb_description :: "string option"
  gb_isPrivate :: "bool option"
  gb_maxMembers :: "rat option"

definition orDefault :: "'a \<Rightarrow> 'a option \<Rightarrow> 'a" where
  "orDefault d v = (case v of None \<Rightarrow> d | Some x \<Rightarrow> x)"

definition createGroup ::
  "date \<Rightarrow> objectId \<Rightarrow> group_body \<Rightarrow> string \<Rightarrow> store \<Rightarrow> response \<times> store" where
  "createGroup now userId body code st =
     (case gb_name body of
        None \<Rightarrow> (Response 400 ''Group name is required'', st)
      | Some name \<Rightarrow>
          if name = [] then (Response 400 ''Group name is required'', st)
          else
            let grp = \<lparr>g_name = trim name,
                       g_description = trim (orDefault [] (gb_description body)),
                       g_members = [userId], g_habits = [], g_creator = userId,
                       g_isPrivate = orDefault False (gb_isPrivate body),
                       g_maxMembers = orDefault 50 (gb_maxMembers body),
                       g_inviteCode = None, g_isActive = True,
                       g_createdAt = now, g_updatedAt = now\<rparr>
            in case group_create now code grp of
                 Inl e \<Rightarrow> (Response 500 ''Failed to create group'', st)
               | Inr savedGroup \<Rightarrow>
                   let st1 = st\<lparr>st_groups := st_groups st @ [savedGroup]\<rparr>;
                       st2 = st1\<lparr>st_users := updateById userId
                               (\<lambda>u. u\<lparr>u_joinedGroups := u_joinedGroups u @ [length (st_groups st)],
                                      u_updatedAt := now\<rparr>)
                               (st_users st1)\<rparr>
                   in (Response 201 ''Group created successfully'', st2))"

text \<open>
  \<^verbatim>\<open>findByIdAndUpdate\<close> with \<^verbatim>\<open>runValidators\<close> sets the fields that the body defines and
  checks each of them against its validators; it stamps \<^verbatim>\<open>updatedAt\<close> and runs no save
  hook.
\<close>

definition update_valid :: "group_body \<Rightarrow> bool" where
  "update_valid body \<longleftrightarrow>
     (case gb_name body of None \<Rightarrow> True
      | Some n \<Rightarrow> 1 \<le> length (trim n) \<and> length (trim n) \<le> 100) \<and>
     (case gb_description body of None \<Rightarrow> True | Some d \<Rightarrow> length (trim d) \<le> 1000) \<and>
     (case gb_maxMembers body of None \<Rightarrow> True | Some m \<Rightarrow> 1 \<le> m \<and> m \<le> 1000)"

definition applyUpdate :: "date \<Rightarrow> group_body \<Rightarrow> group \<Rightarrow> group" where
  "applyUpdate now body g =
     g\<lparr>g_name := (case gb_name body of None \<Rightarrow> g_name g | Some n \<Rightarrow> trim n),
       g_description := (case gb_description body of None \<Rightarrow> g_description g | Some d \<Rightarrow> trim d),
       g_isPrivate := orDefault (g_isPrivate g) (gb_isPrivate body),
       g_maxMembers := orDefault (g_maxMembers g) (gb_maxMembers body),
       g_updatedAt := now\<rparr>"

definition updateGroup ::
  "date \<Rightarrow> objectId \<Rightarrow> objectId \<Rightarrow> group_body \<Rightarrow> store \<Rightarrow> response \<times> store" where
  "updateGroup now userId groupId body st =
     (case findById groupId (st_groups st) of
        None \<Rightarrow> (Response 404 ''Group not found'', st)
      | Some grp \<Rightarrow>
          if g_creator grp \<noteq> userId then
            (Response 403 ''Not authorized to update this group'', st)
          else if \<not> update_valid body then
            (Response 500 ''Failed to update group'', st)
          else
            (Response 200 ''Group updated successfully'',
             st\<lparr>st_groups := (st_groups st)[groupId := applyUpdate now body grp]\<rparr>))"

definition joinGroup ::
  "date \<Rightarrow> objectId \<Rightarrow> objectId \<Rightarrow> string option \<Rightarrow> string \<Rightarrow> store \<Rightarrow> response \<times> store" where
  "joinGroup now userId groupId inviteCode code st =
     (case findById groupId (st_groups st) of
        None \<Rightarrow> (Response 404 ''Group not found'', st)
      | Some grp \<Rightarrow>
          if \<not> g_isActive grp then (Response 404 ''Group not found'', st)
          else if userId \<in> set (g_members grp) then
            (Response 400 ''You are already a member of this group'', st)
          else if isFull grp then (Response 400 ''Group is full'', st)
          else if g_isPrivate grp \<and>
                  (inviteCode = None \<or> inviteCode = Some [] \<or> inviteCode \<noteq> g_inviteCode grp)
          then (Response 403 ''Invalid invite code for private group'', st)
          else case addMember now code userId grp of
                 Inl e \<Rightarrow> (Response 500 ''Failed to join group'', st)
               | Inr saved \<Rightarrow>
                   let st1 = st\<lparr>st_groups := (st_groups st)[groupId := saved]\<rparr>;
                       st2 = st1\<lparr>st_users := updateById userId
                               (\<lambda>u. u\<lparr>u_joinedGroups := u_joinedGroups u @ [groupId],
                                      u_updatedAt := now\<rparr>)
                               (st_users st1)\<rparr>
                   in (Response 200 ''Successfully joined the group'', st2))"

definition leaveGroup ::
  "date \<Rightarrow> objectId \<Rightarrow> objectId \<Rightarrow> string \<Rightarrow> store \<Rightarrow> response \<times> store" where
  "leaveGroup now userId groupId code st =
     (case findById groupId (st_groups st) of
        None \<Rightarrow> (Response 404 ''Group not found'', st)
      | Some grp \<Rightarrow>
          if userId \<notin> set (g_members grp) then
            (Response 400 ''You are not a member of this group'', st)
          else if g_creator grp = userId then
            (Response 403 ''Group creator cannot leave. Transfer ownership or delete the group.'',
             st)
          else case removeMember now code userId grp of
                 Inl e \<Rightarrow> (Response 500 ''Failed to leave group'', st)
               | Inr saved \<Rightarrow>
                   let st1 = st\<lparr>st_groups := (st_groups st)[groupId := saved]\<rparr>;
                       st2 = st1\<lparr>st_users := updateById userId
                               (\<lambda>u. u\<lparr>u_joinedGroups := removeAll groupId (u_joinedGroups u),
                                      u_updatedAt := now\<rparr>)
                               (st_users st1)\<rparr>
                   in (Response 200 ''Successfully left the group'', st2))"

text \<open>\<^verbatim>\<open>logProgress\<close>. The body's date is absent or an already parsed date.\<close>

record log_body =
  lb_habitId :: "objectId option"
  lb_date :: "date option"
  lb_completed :: "bool option"
  lb_value :: "rat option"
  lb_notes :: "string option"



text \<open>
  \<^verbatim>\<open>deleteHabit\<close>: the soft delete and the two \<^verbatim>\<open>$pull\<close> updates, each with the stamp
  of its schema; \<^verbatim>\<open>updateMany\<close> writes the groups that its filter matches.
\<close>

definition deleteHabit :: "date \<Rightarrow> objectId \<Rightarrow> objectId \<Rightarrow> store \<Rightarrow> response \<times> store" where
  "deleteHabit now userId habitId st =
     (case findById habitId (st_habits st) of
        None \<Rightarrow> (Response 404 ''Habit not found'', st)
      | Some habit \<Rightarrow>
          if h_creator habit \<noteq> userId then
            (Response 403 ''Not authorized to delete this habit'', st)
          else
            let st1 = st\<lparr>st_habits :=
                        updateById habitId (\<lambda>h. h\<lparr>h_isActive := False, h_updatedAt := now\<rparr>)
                          (st_habits st)\<rparr>;
                st2 = st1\<lparr>st_users := updateById userId
                        (\<lambda>u. u\<lparr>u_createdHabits := removeAll habitId (u_createdHabits u),
                               u_updatedAt := now\<rparr>)
                        (st_users st1)\<rparr>;
                st3 = st2\<lparr>st_groups :=
                        map (\<lambda>g. if habitId \<in> set (g_habits g)
                                  then g\<lparr>g_habits := removeAll habitId (g_habits g),
                                         g_updatedAt := now\<rparr>
                                  else g)
                          (st_groups st2)\<rparr>
            in (Response 200 ''Habit deleted successfully'', st3))"

section \<open>The streak as the specification words it\<close>

text \<open>
  The number of consecutive days \<open>d, d - 1, ...\<close> that are all in \<open>days\<close>, counted up to
  \<open>n\<close>; and the streak of the specification: the run that ends today, or the run that ends
  yesterday when today is not completed.
\<close>

fun run_back :: "int \<Rightarrow> int list \<Rightarrow> nat \<Rightarrow> nat" where
  "run_back d days 0 = 0"
| "run_back d days (Suc n) = (if d \<in> set days then Suc (run_back (d - 1) days n) else 0)"

definition spec_streak :: "int \<Rightarrow> int list \<Rightarrow> nat" where
  "spec_streak today days =
     (if today \<in> set days then run_back today days (length days)
      else run_back (today - 1) days (length days))"

text \<open>
  The ledger entries of one user and habit, and the calendar days of those that are
  completed.
\<close>

definition entriesOf :: "objectId \<Rightarrow> objectId \<Rightarrow> ledger \<Rightarrow> progress list" where
  "entriesOf userId habitId db = filter (\<lambda>e. p_user e = userId \<and> p_habit e = habitId) db"

definition completedDays :: "progress list \<Rightarrow> int list" where
  "completedDays es = map (\<lambda>e. dayOf (p_date e)) (filter p_completed es)"

section \<open>Invariants of the data model\<close>

text \<open>One ledger row per user, habit and calendar day.\<close>

definition dayKey :: "progress \<Rightarrow> objectId \<times> objectId \<times> int" where
  "dayKey e = (p_user e, p_habit e, dayOf (p_date e))"

definition onePerDay :: "ledger \<Rightarrow> bool" where
  "onePerDay db \<longleftrightarrow> distinct (map dayKey db)"

text \<open>
  A sequence of upserts: each request carries the time of the call and the arguments of
  \<^verbatim>\<open>createOrUpdate\<close>; a call that throws leaves the ledger as it was.
\<close>

datatype upsert = Upsert date objectId objectId date bool "rat option" string

fun applyUpsert :: "upsert \<Rightarrow> ledger \<Rightarrow> ledger" where
  "applyUpsert (Upsert now userId habitId date completed val notes) db =
     (case createOrUpdate now userId habitId date completed val notes db of
        Inl e \<Rightarrow> db
      | Inr (saved, db') \<Rightarrow> db')"

text \<open>\<^verbatim>\<open>completedAt\<close> is set exactly when \<^verbatim>\<open>completed\<close> is true.\<close>

definition tied :: "progress \<Rightarrow> bool" where
  "tied e \<longleftrightarrow> (p_completedAt e \<noteq> None) = p_completed e"

text \<open>
  A value and notes that pass the validators, and a ledger as saves leave it: one row per
  day, every row valid and with its timestamp tied to its flag.
\<close>

definition input_ok :: "rat option \<Rightarrow> string \<Rightarrow> bool" where
  "input_ok val notes \<longleftrightarrow>
     (case val of None \<Rightarrow> True | Some v \<Rightarrow> 0 \<le> v) \<and> length (trim notes) \<le> 500"

definition ledger_ok :: "ledger \<Rightarrow> bool" where
  "ledger_ok db \<longleftrightarrow> onePerDay db \<and> list_all (\<lambda>e. progress_valid e \<and> tied e) db"

text \<open>
  The group invariant, and sequences of requests to the group controllers, each with the
  time of the request.
\<close>

definition group_inv :: "group \<Rightarrow> bool" where
  "group_inv g \<longleftrightarrow>
     of_nat (length (g_members g)) \<le> g_maxMembers g \<and> g_creator g \<in> set (g_members g)"

definition whole :: "rat \<Rightarrow> bool" where
  "whole m \<longleftrightarrow> of_int \<lfloor>m\<rfloor> = m"

datatype group_op =
    CreateGroup date objectId group_body string
  | UpdateGroup date objectId objectId group_body
  | JoinGroup date objectId objectId "string option" string
  | LeaveGroup date objectId objectId string

fun group_step :: "group_op \<Rightarrow> store \<Rightarrow> store" where
  "group_step (CreateGroup now userId body code) st = snd (createGroup now userId body code st)"
| "group_step (UpdateGroup now userId groupId body) st =
     snd (updateGroup now userId groupId body st)"
| "group_step (JoinGroup now userId groupId inviteCode code) st =
     snd (joinGroup now userId groupId inviteCode code st)"
| "group_step (LeaveGroup now userId groupId code) st =
     snd (leaveGroup now userId groupId code st)"

text \<open>
  A request respects the limit when the \<^verbatim>\<open>maxMembers\<close> it carries, if any, is a whole
  number and, in an update, is not below the number of members that the group has; a
  sequence respects it when each request does so in the store it meets.
\<close>

fun respects_limit :: "group_op \<Rightarrow> store \<Rightarrow> bool" where
  "respects_limit (CreateGroup now userId body code) st =
     (case gb_maxMembers body of None \<Rightarrow> True | Some m \<Rightarrow> whole m)"
| "respects_limit (UpdateGroup now userId groupId body) st =
     (case gb_maxMembers body of None \<Rightarrow> True
      | Some m \<Rightarrow> whole m \<and>
          (case findById groupId (st_groups st) of None \<Rightarrow> True
           | Some g \<Rightarrow> of_nat (length (g_members g)) \<le> m))"
| "respects_limit op st = True"

fun admissible :: "group_op list \<Rightarrow> store \<Rightarrow> bool" where
  "admissible [] st = True"
| "admissible (op # ops) st = (respects_limit op st \<and> admissible ops (group_step op st))"

definition groups_ok :: "store \<Rightarrow> bool" where
  "groups_ok st \<longleftrightarrow> list_all (\<lambda>g. group_inv g \<and> whole (g_maxMembers g)) (st_groups st)"


definition authorized :: "objectId \<Rightarrow> log_body \<Rightarrow> store \<Rightarrow> bool" where
  "authorized userId body st =
     (case lb_habitId body of None \<Rightarrow> False
      | Some habitId \<Rightarrow>
          (case findById habitId (st_habits st) of None \<Rightarrow> False
           | Some h \<Rightarrow> h_creator h = userId) \<or>
          list_ex (\<lambda>g. g_isActive g \<and> habitId \<in> set (g_habits g) \<and> userId \<in> set (g_members g))
            (st_groups st))"

section \<open>Example documents\<close>

definition habit0 :: habit where
  "habit0 = \<lparr>h_name = ''Read'', h_description = [], h_creator = 0, h_goal = [],
             h_frequency = ''daily'', h_duration = 30, h_isActive = True, h_category = ''general'',
             h_targetValue = 1, h_unit = ''times'',
             h_completionDates = [0, 86400000, 172800000, 259200000, 345600000, 432000000, 518400000],
             h_createdAt = 0, h_updatedAt = 0\<rparr>"

definition entry0 :: progress where
  "entry0 = \<lparr>p_habit = 0, p_user = 0, p_date = 777600000, p_completed = True,
             p_completedAt = Some 777600000, p_notes = [], p_value = None, p_streak = 0,
             p_isLateEntry = False, p_createdAt = 777600000, p_updatedAt = 777600000\<rparr>"

text \<open>
  The row that an upsert at time 1000 for day 0 leaves in the empty ledger; the row after
  a second upsert at time 2000 that marks the day as not completed, with a value and
  notes; and the row after a toggle of the first at time 2000.
\<close>

definition entry1 :: progress where
  "entry1 = \<lparr>p_habit = 0, p_user = 0, p_date = 0, p_completed = True,
             p_completedAt = Some 1000, p_notes = [], p_value = None, p_streak = 0,
             p_isLateEntry = False, p_createdAt = 1000, p_updatedAt = 1000\<rparr>"

definition entry2 :: progress where
  "entry2 = \<lparr>p_habit = 0, p_user = 0, p_date = 0, p_completed = False,
             p_completedAt = None, p_notes = ''ok'', p_value = Some 3, p_streak = 0,
             p_isLateEntry = False, p_createdAt = 1000, p_updatedAt = 2000\<rparr>"

definition entry3 :: progress where
  "entry3 = \<lparr>p_habit = 0, p_user = 0, p_date = 0, p_completed = False,
             p_completedAt = None, p_notes = [], p_value = None, p_streak = 0,
             p_isLateEntry = False, p_createdAt = 1000, p_updatedAt = 2000\<rparr>"

definition group0 :: group where
  "group0 = \<lparr>g_name = ''Runners'', g_description = [], g_members = [0], g_habits = [0],
             g_creator = 0, g_isPrivate = False, g_maxMembers = 1, g_inviteCode = Some ''ABCD1234'',
             g_isActive = False, g_createdAt = 0, g_updatedAt = 0\<rparr>"

definition group1 :: group where
  "group1 = \<lparr>g_name = ''Readers'', g_description = [], g_members = [0], g_habits = [],
             g_creator = 0, g_isPrivate = False, g_maxMembers = 50, g_inviteCode = Some ''EFGH5678'',
             g_isActive = True, g_createdAt = 0, g_updatedAt = 0\<rparr>"

definition store0 :: store where
  "store0 = \<lparr>st_users = [\<lparr>u_joinedGroups = [], u_createdHabits = [0], u_updatedAt = 0\<rparr>,
                         \<lparr>u_joinedGroups = [], u_createdHabits = [], u_updatedAt = 0\<rparr>],
             st_habits = [habit0], st_groups = [group0], st_progress = [entry0]\<rparr>"

definition store1 :: store where
  "store1 = \<lparr>st_users = [\<lparr>u_joinedGroups = [0], u_createdHabits = [], u_updatedAt = 0\<rparr>,
                         \<lparr>u_joinedGroups = [], u_createdHabits = [], u_updatedAt = 0\<rparr>],
             st_habits = [], st_groups = [group1], st_progress = []\<rparr>"

definition emptyStore :: store where
  "emptyStore = \<lparr>st_users = [], st_habits = [], st_groups = [], st_progress = []\<rparr>"

definition noBody :: group_body where
  "noBody = \<lparr>gb_name = None, gb_description = None, gb_isPrivate = None, gb_maxMembers = None\<rparr>"

section \<open>Days and timestamps\<close>

lemma msPerDay_pos: "0 < msPerDay"
  by (simp add: msPerDay_def)

lemma startOfDay_dayOf: "startOfDay t = dayOf t * msPerDay"
  unfolding startOfDay_def dayOf_def by (simp add: minus_mod_eq_div_mult)

lemma dayOf_startOfDay: "dayOf (startOfDay t) = dayOf t"
  using msPerDay_pos by (simp add: startOfDay_dayOf dayOf_def)

lemma startOfDay_eq_iff: "startOfDay t = D * msPerDay \<longleftrightarrow> dayOf t = D"
  using msPerDay_pos by (simp add: startOfDay_dayOf)

lemma startOfDay_eq_next_iff: "startOfDay t = D * msPerDay + 86400000 \<longleftrightarrow> dayOf t = D + 1"
proof -
  have "D * msPerDay + 86400000 = (D + 1) * msPerDay"
    by (simp add: msPerDay_def algebra_simps)
  then show ?thesis by (simp only: startOfDay_eq_iff)
qed

lemma prev_day: "D * msPerDay - msPerDay = (D - 1) * msPerDay"
  by (simp add: algebra_simps)

lemma dayOf_mono: "s \<le> t \<Longrightarrow> dayOf s \<le> dayOf t"
  unfolding dayOf_def using msPerDay_pos by (simp add: zdiv_mono1)

lemma daysDiff_days: "(T * msPerDay - startOfDay t) div 86400000 = T - dayOf t"
proof -
  have "T * msPerDay - startOfDay t = (T - dayOf t) * 86400000"
    by (simp add: startOfDay_dayOf msPerDay_def algebra_simps)
  then show ?thesis by simp
qed

section \<open>The streak loops count the run of days that ends today\<close>

lemma run_back_above: "d < e \<Longrightarrow> run_back d (e # ds) n = run_back d ds n"
  by (induction n arbitrary: d) auto

lemma run_back_absent: "d \<notin> set ds \<Longrightarrow> run_back d ds n = 0"
  by (cases n) auto

lemma run_back_set: "set ds = set ds' \<Longrightarrow> run_back d ds n = run_back d ds' n"
  by (induction n arbitrary: d) auto

lemma strict_desc:
  fixes zs :: "int list"
  shows "sorted_wrt (\<lambda>a b. b \<le> a) zs \<Longrightarrow> distinct zs \<Longrightarrow> sorted_wrt (\<lambda>a b. b < a) zs"
  by (induction zs) (auto simp: order_less_le)

lemma streakLoop_run:
  "sorted_wrt (>) (map dayOf xs) \<Longrightarrow> \<forall>x\<in>set xs. dayOf x \<le> D \<Longrightarrow> length xs \<le> n \<Longrightarrow>
   streakLoop xs (D * msPerDay) s = s + run_back D (map dayOf xs) n"
proof (induction xs arbitrary: D s n)
  case Nil
  then show ?case by (simp add: run_back_absent)
next
  case (Cons x rest)
  from Cons.prems(3) obtain m where n: "n = Suc m" and m: "length rest \<le> m"
    by (cases n) auto
  have le: "dayOf x \<le> D" using Cons.prems(2) by simp
  have below: "\<forall>y\<in>set rest. dayOf y < dayOf x" using Cons.prems(1) by auto
  have srt: "sorted_wrt (>) (map dayOf rest)" using Cons.prems(1) by simp
  show ?case
  proof (cases "dayOf x = D")
    case True
    have "\<forall>y\<in>set rest. dayOf y \<le> D - 1" using below True by auto
    from Cons.IH [OF srt this m, of "s + 1"]
    have "streakLoop rest ((D - 1) * msPerDay) (s + 1) =
          s + 1 + run_back (D - 1) (map dayOf rest) m" .
    moreover have "run_back (D - 1) (dayOf x # map dayOf rest) m =
                   run_back (D - 1) (map dayOf rest) m"
      by (rule run_back_above) (simp add: True)
    ultimately show ?thesis
      using True by (simp add: n startOfDay_eq_iff prev_day)
  next
    case False
    then have lt: "dayOf x < D" using le by simp
    then have "D \<notin> set (map dayOf (x # rest))" using below by auto
    then have "run_back D (map dayOf (x # rest)) n = 0" by (rule run_back_absent)
    then show ?thesis using False lt
      by (simp add: startOfDay_eq_iff startOfDay_eq_next_iff del: run_back.simps)
  qed
qed

lemma desc_days_sorted:
  assumes "distinct (map dayOf xs)"
  shows "sorted_wrt (>) (map dayOf (rev (sort xs)))"
proof -
  have "sorted_wrt (\<lambda>a b. dayOf a \<le> dayOf b) (sort xs)"
    by (rule sorted_wrt_mono_rel [OF _ sorted_sort [of xs]]) (simp add: dayOf_mono)
  then have "sorted_wrt (\<lambda>a b. b \<le> a) (map dayOf (rev (sort xs)))"
    by (simp add: sorted_wrt_map sorted_wrt_rev)
  moreover have "distinct (map dayOf (rev (sort xs)))"
    using assms by (simp add: distinct_map)
  ultimately show ?thesis by (rule strict_desc)
qed

lemma currentStreak_run:
  assumes "distinct (map dayOf dates)" and "\<forall>d\<in>set dates. dayOf d \<le> dayOf now"
  shows "currentStreak now dates = run_back (dayOf now) (map dayOf dates) (length dates)"
proof (cases "dates = []")
  case True
  then show ?thesis by (simp add: currentStreak_def)
next
  case False
  let ?xs = "rev (sort dates)"
  have "streakLoop ?xs (dayOf now * msPerDay) 0 =
        0 + run_back (dayOf now) (map dayOf ?xs) (length dates)"
    by (rule streakLoop_run [OF desc_days_sorted [OF assms(1)]]) (use assms(2) in auto)
  moreover have "run_back (dayOf now) (map dayOf ?xs) (length dates) =
                 run_back (dayOf now) (map dayOf dates) (length dates)"
    by (rule run_back_set) simp
  ultimately show ?thesis using False
    by (simp add: currentStreak_def startOfDay_dayOf)
qed

lemma entryLoop_run:
  "sorted_wrt (>) (map (\<lambda>e. dayOf (p_date e)) es) \<Longrightarrow>
   \<forall>e\<in>set es. dayOf (p_date e) \<le> T - int s \<Longrightarrow>
   entryLoop (T * msPerDay) (take m es) s = s + run_back (T - int s) (completedDays es) m"
proof (induction es arbitrary: s m)
  case Nil
  then show ?case by (simp add: run_back_absent completedDays_def)
next
  case (Cons x rest)
  show ?case
  proof (cases m)
    case 0
    then show ?thesis by simp
  next
    case (Suc k)
    have le: "dayOf (p_date x) \<le> T - int s" using Cons.prems(2) by simp
    have below: "\<forall>y\<in>set rest. dayOf (p_date y) < dayOf (p_date x)" using Cons.prems(1) by auto
    have srt: "sorted_wrt (>) (map (\<lambda>e. dayOf (p_date e)) rest)" using Cons.prems(1) by simp
    show ?thesis
    proof (cases "dayOf (p_date x) = T - int s \<and> p_completed x")
      case True
      define d where "d = T - int s"
      have d1: "T - int (s + 1) = d - 1" by (simp add: d_def)
      have dx: "dayOf (p_date x) = d" using True by (simp add: d_def)
      have "\<forall>y\<in>set rest. dayOf (p_date y) \<le> T - int (s + 1)"
        using below dx unfolding d1 by auto
      from Cons.IH [OF srt this, of k]
      have ih: "entryLoop (T * msPerDay) (take k rest) (s + 1) =
                s + 1 + run_back (d - 1) (completedDays rest) k"
        unfolding d1 .
      have cd: "completedDays (x # rest) = d # completedDays rest"
        using True dx by (simp add: completedDays_def)
      have "run_back d (d # completedDays rest) (Suc k) =
            Suc (run_back (d - 1) (d # completedDays rest) k)"
        by simp
      also have "run_back (d - 1) (d # completedDays rest) k =
                 run_back (d - 1) (completedDays rest) k"
        by (rule run_back_above) simp
      finally have rhs: "run_back (T - int s) (completedDays (x # rest)) m =
                         Suc (run_back (d - 1) (completedDays rest) k)"
        unfolding cd d_def Suc .
      have "entryLoop (T * msPerDay) (take m (x # rest)) s =
            entryLoop (T * msPerDay) (take k rest) (s + 1)"
        using True by (simp add: Suc daysDiff_days)
      then show ?thesis
        unfolding ih rhs by simp
    next
      case False
      have "T - int s \<notin> set (completedDays (x # rest))"
        using False below le by (auto simp: completedDays_def)
      then have "run_back (T - int s) (completedDays (x # rest)) m = 0"
        by (rule run_back_absent)
      moreover have "\<not> (T - dayOf (p_date x) = int s \<and> p_completed x)"
        using False by auto
      then have "entryLoop (T * msPerDay) (take m (x # rest)) s = s"
        by (auto simp: Suc daysDiff_days)
      ultimately show ?thesis
        by simp
    qed
  qed
qed

lemma desc_entries_sorted:
  assumes "distinct (map (\<lambda>e. dayOf (p_date e)) es)"
  shows "sorted_wrt (>) (map (\<lambda>e. dayOf (p_date e)) (sort_key (\<lambda>e. - p_date e) es))"
proof -
  let ?ys = "sort_key (\<lambda>e. - p_date e) es"
  have "sorted (map (\<lambda>e. - p_date e) ?ys)" by (rule sorted_sort_key)
  then have "sorted_wrt (\<lambda>a b. dayOf (p_date a) \<ge> dayOf (p_date b)) ?ys"
    unfolding sorted_map by (rule sorted_wrt_mono_rel [rotated]) (simp add: dayOf_mono)
  then have "sorted_wrt (\<lambda>a b. b \<le> a) (map (\<lambda>e. dayOf (p_date e)) ?ys)"
    by (simp add: sorted_wrt_map)
  moreover have "distinct (map (\<lambda>e. dayOf (p_date e)) ?ys)"
    using assms by (simp add: distinct_map)
  ultimately show ?thesis
    by (rule strict_desc)
qed

lemma getCurrentStreak_run:
  assumes "distinct (map (\<lambda>e. dayOf (p_date e)) (entriesOf userId habitId db))"
    and "\<forall>e\<in>set (entriesOf userId habitId db). dayOf (p_date e) \<le> dayOf now"
  shows "getCurrentStreak now userId habitId db =
         run_back (dayOf now) (completedDays (entriesOf userId habitId db)) 365"
proof -
  let ?ys = "sort_key (\<lambda>e. - p_date e) (entriesOf userId habitId db)"
  have "entryLoop (dayOf now * msPerDay) (take 365 ?ys) 0 =
        0 + run_back (dayOf now - int 0) (completedDays ?ys) 365"
    by (rule entryLoop_run [OF desc_entries_sorted [OF assms(1)]]) (use assms(2) in auto)
  moreover have "run_back (dayOf now) (completedDays ?ys) 365 =
                 run_back (dayOf now) (completedDays (entriesOf userId habitId db)) 365"
    by (rule run_back_set) (auto simp: completedDays_def)
  ultimately show ?thesis
    by (simp add: getCurrentStreak_def findSorted_def entriesOf_def startOfDay_dayOf)
qed

text \<open>
  C1. The claim: both streak calculations return the number of consecutive completed
  calendar days that end today, or that end yesterday when today is not completed.
  As amended: both return the number of consecutive completed calendar days that end today.
  \<^verbatim>\<open>Progress.getCurrentStreak\<close> does so, counting at most 365 days, for a ledger with one
  entry per day and none dated after today, and returns 0 when today is not completed;
  the virtual \<^verbatim>\<open>currentStreak\<close> agrees with the streak of the specification when today is
  among the completion dates, which fall on pairwise different days, none after today.
\<close>

theorem streak_counts_days_ending_today:
  "(distinct (map dayOf dates) \<and> (\<forall>d\<in>set dates. dayOf d \<le> dayOf now) \<and>
    dayOf now \<in> set (map dayOf dates)
      \<longrightarrow> currentStreak now dates = spec_streak (dayOf now) (map dayOf dates)) \<and>
   (distinct (map (\<lambda>e. dayOf (p_date e)) (entriesOf userId habitId db)) \<and>
    (\<forall>e\<in>set (entriesOf userId habitId db). dayOf (p_date e) \<le> dayOf now)
      \<longrightarrow> getCurrentStreak now userId habitId db =
          run_back (dayOf now) (completedDays (entriesOf userId habitId db)) 365)"
  by (simp add: currentStreak_run getCurrentStreak_run spec_streak_def)

theorem streak_counts_days_ending_today_witness:
  "currentStreak 867600000 [864001000, 777600000] = spec_streak 10 [10, 9] \<and>
   getCurrentStreak 867600000 0 0 [entry0, entry0\<lparr>p_date := 864000000\<rparr>] =
     run_back 10 [9, 10] 365"
  using streak_counts_days_ending_today
    [of "[864001000, 777600000]" 867600000 0 0 "[entry0, entry0\<lparr>p_date := 864000000\<rparr>]"]
  by (simp add: dayOf_def msPerDay_def entriesOf_def completedDays_def entry0_def)

text \<open>
  Against the claim as stated: with yesterday completed and today not, the specification's
  streak is 1 and both calculations return 0.
\<close>

theorem streak_yesterday_not_counted:
  "spec_streak (dayOf 867600000) (map dayOf [777600000]) = 1 \<and>
   currentStreak 867600000 [777600000] = 0 \<and>
   getCurrentStreak 867600000 0 0 [entry0] = 0"
  by (simp add: spec_streak_def dayOf_def msPerDay_def currentStreak_def startOfDay_def
      getCurrentStreak_def findSorted_def entry0_def)

text \<open>
  Without a completion dated today or tomorrow the virtual \<^verbatim>\<open>currentStreak\<close> is 0, and
  without a ledger entry dated today \<^verbatim>\<open>getCurrentStreak\<close> is 0.
\<close>

lemma currentStreak_zero:
  assumes "dayOf now \<notin> set (map dayOf dates)" and "dayOf now + 1 \<notin> set (map dayOf dates)"
  shows "currentStreak now dates = 0"
proof (cases "rev (sort dates)")
  case Nil
  then show ?thesis by (simp add: currentStreak_def)
next
  case (Cons x rest)
  then have "x \<in> set (rev (sort dates))" by simp
  then have "x \<in> set dates" by simp
  then have "dayOf x \<in> set (map dayOf dates)" by simp
  then have "dayOf x \<noteq> dayOf now" and "dayOf x \<noteq> dayOf now + 1"
    using assms by metis+
  then have "streakLoop (x # rest) (dayOf now * msPerDay) 0 = 0"
    by (simp add: startOfDay_eq_iff startOfDay_eq_next_iff)
  then show ?thesis
    using Cons by (simp add: currentStreak_def startOfDay_dayOf)
qed

lemma getCurrentStreak_zero:
  assumes "dayOf now \<notin> set (map (\<lambda>e. dayOf (p_date e)) (entriesOf userId habitId db))"
  shows "getCurrentStreak now userId habitId db = 0"
proof (cases "findSorted userId habitId db")
  case Nil
  then show ?thesis by (simp add: getCurrentStreak_def)
next
  case (Cons x rest)
  then have "x \<in> set (findSorted userId habitId db)" by simp
  then have "x \<in> set (entriesOf userId habitId db)"
    unfolding findSorted_def entriesOf_def by (auto dest: in_set_takeD)
  then have "dayOf (p_date x) \<in> set (map (\<lambda>e. dayOf (p_date e)) (entriesOf userId habitId db))"
    by simp
  then have "dayOf (p_date x) \<noteq> dayOf now"
    using assms by metis
  then have "entryLoop (dayOf now * msPerDay) (x # rest) 0 = 0"
    by (simp add: daysDiff_days)
  then show ?thesis
    using Cons by (simp add: getCurrentStreak_def startOfDay_dayOf)
qed

text \<open>
  C5. The claim: when neither today nor yesterday is among the completion days, both
  streak calculations return 0. The virtual \<^verbatim>\<open>currentStreak\<close> breaks it: its second branch,
  commented as allowing for yesterday, compares with \<^verbatim>\<open>checkDate\<close> plus one day, so that
  a single completion dated tomorrow counts as a streak of 1.
\<close>

theorem currentStreak_counts_tomorrow:
  "dayOf 950400000 \<noteq> dayOf 867600000 \<and> dayOf 950400000 \<noteq> dayOf 867600000 - 1 \<and>
   currentStreak 867600000 [950400000] = 1"
  by (simp add: dayOf_def msPerDay_def currentStreak_def startOfDay_def)

section \<open>Completion rates\<close>

text \<open>
  C2. The claim: a habit created exactly 10 days before now, with duration 30 and 7
  completion days, has 10 expected completions and a rate of 70. As amended: it has 11
  expected completions, since \<^verbatim>\<open>daysSinceCreation\<close> is the number of whole elapsed days
  plus one, and a rate of 700 / 11, about 63.6.
\<close>

theorem completionRate_created_ten_days_ago:
  assumes "h_createdAt h = now - 10 * msPerDay" and "h_duration h = 30"
    and "length (h_completionDates h) = 7"
  shows "expectedCompletions now h = 11 \<and> completionRate now h = 700 / 11"
proof -
  have "(now - h_createdAt h) div msPerDay = 10"
    using assms(1) msPerDay_pos by simp
  then have e: "expectedCompletions now h = 11"
    using assms(2) by (simp add: expectedCompletions_def daysSinceCreation_def)
  have "h_completionDates h \<noteq> []" using assms(3) by auto
  then show ?thesis
    using e assms(3) by (simp add: completionRate_def)
qed

theorem completionRate_created_ten_days_ago_witness:
  "expectedCompletions 864000000 habit0 = 11 \<and> completionRate 864000000 habit0 = 700 / 11"
  using completionRate_created_ten_days_ago [of habit0 864000000]
  by (simp add: habit0_def msPerDay_def)

theorem completionRate_example_not_seventy:
  "h_createdAt habit0 = 864000000 - 10 * msPerDay \<and> h_duration habit0 = 30 \<and>
   length (h_completionDates habit0) = 7 \<and>
   expectedCompletions 864000000 habit0 \<noteq> 10 \<and> completionRate 864000000 habit0 \<noteq> 70"
  by (simp add: habit0_def msPerDay_def expectedCompletions_def daysSinceCreation_def
      completionRate_def)

lemma filter_conj_length: "length (filter (\<lambda>x. P x \<and> Q x) xs) \<le> length (filter P xs)"
  by (induction xs) auto

text \<open>
  C4. Both completion rates lie between 0 and 100. The virtual \<^verbatim>\<open>completionRate\<close> never
  exceeds 100, however many completions are logged; it is not negative for a habit that
  was created in the past with a duration that is not negative, as the timestamps and the
  validator \<^verbatim>\<open>min: 1\<close> of the schema ensure. \<^verbatim>\<open>Progress.calculateCompletionRate\<close> is
  between 0 and 100 for every ledger and window.
\<close>

theorem completion_rates_in_range:
  "completionRate now h \<le> 100 \<and>
   (h_createdAt h \<le> now \<and> 0 \<le> h_duration h \<longrightarrow> 0 \<le> completionRate now h) \<and>
   0 \<le> calculateCompletionRate now userId habitId days db \<and>
   calculateCompletionRate now userId habitId days db \<le> 100"
proof -
  have upper: "completionRate now h \<le> 100"
    by (simp add: completionRate_def)
  have lower: "0 \<le> completionRate now h" if "h_createdAt h \<le> now" and "0 \<le> h_duration h"
  proof -
    have "0 \<le> (now - h_createdAt h) div msPerDay"
      using that(1) msPerDay_pos by (simp add: pos_imp_zdiv_nonneg_iff)
    then have "0 \<le> expectedCompletions now h"
      using that(2) by (simp add: expectedCompletions_def daysSinceCreation_def)
    then show ?thesis
      by (simp add: completionRate_def)
  qed
  let ?total = "length (filter (inWindow now days userId habitId) db)"
  let ?done = "length (filter (\<lambda>e. inWindow now days userId habitId e \<and> p_completed e) db)"
  have le: "?done \<le> ?total" by (rule filter_conj_length)
  have c0: "0 \<le> calculateCompletionRate now userId habitId days db"
    by (simp add: calculateCompletionRate_def Let_def)
  have "(of_nat ?done :: rat) / of_nat ?total * 100 \<le> 100" if "0 < ?total"
  proof -
    have "(of_nat ?done :: rat) / of_nat ?total \<le> 1"
      using le that by (simp add: divide_le_eq_1)
    then have "(of_nat ?done :: rat) / of_nat ?total * 100 \<le> 1 * 100"
      by (rule mult_right_mono) simp
    then show ?thesis by simp
  qed
  then have c100: "calculateCompletionRate now userId habitId days db \<le> 100"
    unfolding calculateCompletionRate_def Let_def by (simp del: times_divide_eq_left)
  show ?thesis using upper lower c0 c100 by blast
qed

theorem completion_rates_in_range_witness:
  "completionRate 864000000 habit0 \<le> 100 \<and> 0 \<le> completionRate 864000000 habit0 \<and>
   0 \<le> calculateCompletionRate 864000000 0 0 30 [entry0] \<and>
   calculateCompletionRate 864000000 0 0 30 [entry0] \<le> 100"
  using completion_rates_in_range [of 864000000 habit0 0 0 30 "[entry0]"]
  by (simp add: habit0_def)

section \<open>The progress ledger\<close>

lemma findIndex_Some: "findIndex P xs = Some i \<Longrightarrow> i < length xs \<and> P (xs ! i)"
  by (induction xs arbitrary: i) (auto split: if_splits)

lemma findIndex_None: "findIndex P xs = None \<Longrightarrow> \<forall>x\<in>set xs. \<not> P x"
  by (induction xs) (auto split: if_splits)

lemma findIndex_found: "x \<in> set xs \<Longrightarrow> P x \<Longrightarrow> findIndex P xs \<noteq> None"
  by (induction xs) auto

lemma same_day_window:
  "startOfDay d \<le> t \<and> t < startOfDay d + 86400000 \<longleftrightarrow> dayOf t = dayOf d"
proof
  assume a: "startOfDay d \<le> t \<and> t < startOfDay d + 86400000"
  define r where "r = t - dayOf d * msPerDay"
  have "t = msPerDay * dayOf d + r" by (simp add: r_def)
  moreover have "0 \<le> r" using a by (simp add: r_def startOfDay_dayOf)
  moreover have "r < msPerDay" using a by (simp add: r_def startOfDay_dayOf msPerDay_def)
  ultimately have "t div msPerDay = dayOf d" by (rule int_div_pos_eq)
  then show "dayOf t = dayOf d" by (simp add: dayOf_def)
next
  assume "dayOf t = dayOf d"
  then have "startOfDay d = t - t mod msPerDay"
    by (simp add: startOfDay_dayOf) (simp add: dayOf_def minus_mod_eq_div_mult)
  moreover have "0 \<le> t mod msPerDay" and "t mod msPerDay < 86400000"
    using msPerDay_pos by (simp_all add: msPerDay_def)
  ultimately show "startOfDay d \<le> t \<and> t < startOfDay d + 86400000" by simp
qed

lemma sameDay_iff:
  "sameDay userId habitId (startOfDay d) e \<longleftrightarrow>
     p_user e = userId \<and> p_habit e = habitId \<and> dayOf (p_date e) = dayOf d"
  using same_day_window [of d "p_date e"] by (auto simp: sameDay_def)

lemma startOfDay_same_day: "dayOf a = dayOf b \<Longrightarrow> startOfDay a = startOfDay b"
  by (simp add: startOfDay_dayOf)

lemma startOfDay_idem: "startOfDay (startOfDay t) = startOfDay t"
  by (rule startOfDay_same_day) (rule dayOf_startOfDay)

lemma pre_save_fields:
  "p_user (progress_pre_save now e) = p_user e"
  "p_habit (progress_pre_save now e) = p_habit e"
  "p_completed (progress_pre_save now e) = p_completed e"
  "p_date (progress_pre_save now e) = startOfDay (p_date e)"
  "p_notes (progress_pre_save now e) = p_notes e"
  "p_value (progress_pre_save now e) = p_value e"
  "p_streak (progress_pre_save now e) = p_streak e"
  by (simp_all add: progress_pre_save_def Let_def split: option.splits)

lemma pre_save_completedAt:
  "p_completedAt (progress_pre_save now e) =
     (if p_completed e then (case p_completedAt e of None \<Rightarrow> Some now | Some t \<Rightarrow> Some t)
      else None)"
  by (simp add: progress_pre_save_def Let_def split: option.splits)

lemma stamp_fields:
  "p_user (stampModified now loaded e) = p_user e"
  "p_habit (stampModified now loaded e) = p_habit e"
  "p_completed (stampModified now loaded e) = p_completed e"
  "p_date (stampModified now loaded e) = p_date e"
  "p_notes (stampModified now loaded e) = p_notes e"
  "p_value (stampModified now loaded e) = p_value e"
  "p_streak (stampModified now loaded e) = p_streak e"
  "p_completedAt (stampModified now loaded e) = p_completedAt e"
  by (simp_all add: stampModified_def)

lemma tied_pre_save: "tied (progress_pre_save now e)"
  by (simp add: tied_def pre_save_fields pre_save_completedAt split: option.splits)

lemma valid_pre_save: "progress_valid (progress_pre_save now e) = progress_valid e"
  by (simp add: progress_valid_def pre_save_fields)

lemma valid_stamp: "progress_valid (stampModified now loaded e) = progress_valid e"
  by (simp add: progress_valid_def stamp_fields)

lemma dayKey_pre_save: "dayKey (progress_pre_save now e) = dayKey e"
  by (simp add: dayKey_def pre_save_fields dayOf_startOfDay)

lemma dayKey_stamp: "dayKey (stampModified now loaded e) = dayKey e"
  by (simp add: dayKey_def stamp_fields)

lemma indexKey_dayKey: "indexKey a = indexKey b \<Longrightarrow> dayKey a = dayKey b"
  by (simp add: indexKey_def dayKey_def)

lemma progress_save_Inr:
  assumes "progress_save now i doc db = Inr (saved, db')"
  shows "saved = progress_pre_save now (stampModified now (db ! i) doc) \<and> db' = db[i := saved]"
  using assms by (auto simp: progress_save_def Let_def split: if_splits)

lemma progress_create_Inr:
  assumes "progress_create now doc db = Inr (saved, db')"
  shows "saved = progress_pre_save now (doc\<lparr>p_createdAt := now, p_updatedAt := now\<rparr>) \<and>
         db' = db @ [saved]"
  using assms by (auto simp: progress_create_def Let_def split: if_splits)

lemma progress_save_valid:
  assumes "progress_save now i doc db = Inr (saved, db')"
  shows "progress_valid saved"
proof -
  have "progress_valid doc" using assms by (auto simp: progress_save_def split: if_splits)
  then show ?thesis
    using progress_save_Inr [OF assms] by (simp add: valid_pre_save valid_stamp)
qed

lemma progress_create_valid:
  assumes "progress_create now doc db = Inr (saved, db')"
  shows "progress_valid saved"
proof -
  have "progress_valid doc" using assms by (auto simp: progress_create_def split: if_splits)
  then have "progress_valid (doc\<lparr>p_createdAt := now, p_updatedAt := now\<rparr>)"
    by (simp add: progress_valid_def)
  then show ?thesis
    using progress_create_Inr [OF assms] by (simp add: valid_pre_save)
qed

lemma createOrUpdate_valid:
  assumes "createOrUpdate now userId habitId date completed val notes db = Inr (saved, db')"
  shows "progress_valid saved"
  using assms unfolding createOrUpdate_def Let_def
  by (cases "findIndex (sameDay userId habitId (startOfDay date)) db")
     (auto dest: progress_save_valid progress_create_valid)

lemma updateFields_fields:
  "p_user (updateFields now completed val notes e) = p_user e"
  "p_habit (updateFields now completed val notes e) = p_habit e"
  "p_date (updateFields now completed val notes e) = p_date e"
  "p_completed (updateFields now completed val notes e) = completed"
  "p_streak (updateFields now completed val notes e) = p_streak e"
  "p_value (updateFields now completed val notes e) =
     (case val of None \<Rightarrow> p_value e | Some v \<Rightarrow> Some v)"
  "p_notes (updateFields now completed val notes e) = (if notes = [] then p_notes e else trim notes)"
  "p_completedAt (updateFields now completed val notes e) =
     (if completed then (case p_completedAt e of None \<Rightarrow> Some now | Some t \<Rightarrow> Some t)
      else None)"
  by (auto simp: updateFields_def Let_def split: option.splits)

text \<open>The two ways in which \<^verbatim>\<open>createOrUpdate\<close> returns.\<close>

lemma createOrUpdate_Inr:
  assumes "createOrUpdate now userId habitId date completed val notes db = Inr (saved, db')"
  shows "(findIndex (sameDay userId habitId (startOfDay date)) db = None \<and>
          db' = db @ [saved] \<and> dayKey saved = (userId, habitId, dayOf date)) \<or>
         (\<exists>i. findIndex (sameDay userId habitId (startOfDay date)) db = Some i \<and>
              i < length db \<and> db' = db[i := saved] \<and> dayKey saved = dayKey (db ! i) \<and>
              dayKey saved = (userId, habitId, dayOf date))"
    and "p_completed saved = completed" and "tied saved"
proof -
  let ?P = "sameDay userId habitId (startOfDay date)"
  let ?new = "\<lparr>p_habit = habitId, p_user = userId, p_date = startOfDay date,
      p_completed = completed, p_completedAt = (if completed then Some now else None),
      p_notes = trim notes, p_value = val, p_streak = 0, p_isLateEntry = False,
      p_createdAt = now, p_updatedAt = now\<rparr>"
  have "(findIndex ?P db = None \<and> progress_create now ?new db = Inr (saved, db')) \<or>
        (\<exists>i. findIndex ?P db = Some i \<and>
           progress_save now i (updateFields now completed val notes (db ! i)) db = Inr (saved, db'))"
    using assms by (cases "findIndex ?P db") (simp_all add: createOrUpdate_def Let_def)
  then consider
    (new) "findIndex ?P db = None"
      "saved = progress_pre_save now (?new\<lparr>p_createdAt := now, p_updatedAt := now\<rparr>)"
      "db' = db @ [saved]"
  | (old) i where "findIndex ?P db = Some i"
      "saved = progress_pre_save now
         (stampModified now (db ! i) (updateFields now completed val notes (db ! i)))"
      "db' = db[i := saved]"
    by (auto dest: progress_save_Inr progress_create_Inr)
  note cases = this
  show "p_completed saved = completed"
    by (cases rule: cases) (simp_all add: pre_save_fields stamp_fields updateFields_fields)
  show "tied saved"
    by (cases rule: cases) (simp_all add: tied_pre_save)
  show "(findIndex ?P db = None \<and> db' = db @ [saved] \<and>
         dayKey saved = (userId, habitId, dayOf date)) \<or>
        (\<exists>i. findIndex ?P db = Some i \<and> i < length db \<and> db' = db[i := saved] \<and>
             dayKey saved = dayKey (db ! i) \<and> dayKey saved = (userId, habitId, dayOf date))"
  proof (cases rule: cases)
    case new
    have "dayKey saved = (userId, habitId, dayOf date)"
      unfolding new(2) dayKey_pre_save by (simp add: dayKey_def dayOf_startOfDay)
    then show ?thesis using new by simp
  next
    case (old i)
    from findIndex_Some [OF old(1)] have i: "i < length db" and P: "?P (db ! i)" by auto
    have "dayKey saved = dayKey (db ! i)"
      unfolding old(2) dayKey_pre_save dayKey_stamp by (simp add: dayKey_def updateFields_fields)
    moreover have "dayKey (db ! i) = (userId, habitId, dayOf date)"
      using P by (simp add: sameDay_iff dayKey_def)
    ultimately show ?thesis using old i by simp
  qed
qed

lemma createOrUpdate_onePerDay:
  assumes "createOrUpdate now userId habitId date completed val notes db = Inr (saved, db')"
    and "onePerDay db"
  shows "onePerDay db'"
  using createOrUpdate_Inr(1) [OF assms(1)]
proof (elim disjE conjE exE)
  assume none: "findIndex (sameDay userId habitId (startOfDay date)) db = None"
    and db': "db' = db @ [saved]" and key: "dayKey saved = (userId, habitId, dayOf date)"
  have "dayKey saved \<notin> set (map dayKey db)"
  proof
    assume "dayKey saved \<in> set (map dayKey db)"
    then obtain e where "e \<in> set db" and "dayKey e = (userId, habitId, dayOf date)"
      using key by auto
    then have "e \<in> set db" and "sameDay userId habitId (startOfDay date) e"
      by (simp_all add: sameDay_iff dayKey_def)
    with findIndex_None [OF none] show False by blast
  qed
  then show ?thesis using assms(2) db' by (simp add: onePerDay_def)
next
  fix i
  assume "i < length db" and "db' = db[i := saved]" and "dayKey saved = dayKey (db ! i)"
  then have "map dayKey db' = map dayKey db"
    by (simp add: map_update list_update_same_conv)
  then show ?thesis using assms(2) by (simp add: onePerDay_def)
qed

lemma applyUpsert_onePerDay: "onePerDay db \<Longrightarrow> onePerDay (applyUpsert r db)"
  by (cases r) (auto split: sum.splits dest: createOrUpdate_onePerDay)

lemma fold_applyUpsert_onePerDay: "onePerDay db \<Longrightarrow> onePerDay (fold applyUpsert reqs db)"
  by (induction reqs arbitrary: db) (simp_all add: applyUpsert_onePerDay)

text \<open>Saves succeed on a ledger as saves leave it.\<close>

lemma distinct_others:
  assumes "distinct (map f xs)" and "i < length xs"
  shows "f (xs ! i) \<notin> set (map f (take i xs @ drop (Suc i) xs))"
proof -
  have "xs = take i xs @ xs ! i # drop (Suc i) xs"
    using assms(2) by (rule id_take_nth_drop)
  then have "distinct (map f (take i xs @ xs ! i # drop (Suc i) xs))"
    using assms(1) by simp
  then show ?thesis by auto
qed

lemma distinct_same_key:
  assumes "distinct (map f xs)" and "x \<in> set xs" and "i < length xs" and "f (xs ! i) = f x"
  shows "xs ! i = x"
proof -
  from assms(2) obtain j where j: "j < length xs" "xs ! j = x" by (auto simp: in_set_conv_nth)
  have "map f xs ! i = map f xs ! j" using assms(3,4) j by simp
  moreover have "i < length (map f xs)" and "j < length (map f xs)" using assms(3) j by simp_all
  ultimately have "i = j" using assms(1) nth_eq_iff_index_eq by blast
  then show ?thesis using j by simp
qed

lemma ledger_ok_update:
  assumes "ledger_ok db" and "i < length db" and "dayKey saved = dayKey (db ! i)"
    and "progress_valid saved" and "tied saved"
  shows "ledger_ok (db[i := saved])"
proof -
  have "map dayKey (db[i := saved]) = map dayKey db"
    using assms(2,3) by (simp add: map_update list_update_same_conv)
  moreover have "\<forall>e\<in>set (db[i := saved]). progress_valid e \<and> tied e"
    using assms(1,4,5) set_update_subset_insert [of db i saved]
    by (auto simp: ledger_ok_def list_all_iff)
  ultimately show ?thesis
    using assms(1) by (simp add: ledger_ok_def onePerDay_def list_all_iff)
qed

lemma progress_save_ok:
  fixes now :: date
  assumes "ledger_ok db" and "i < length db" and "progress_valid doc"
    and "dayKey doc = dayKey (db ! i)"
  defines "saved \<equiv> progress_pre_save now (stampModified now (db ! i) doc)"
  shows "progress_save now i doc db = Inr (saved, db[i := saved])"
    and "ledger_ok (db[i := saved])"
proof -
  have key: "dayKey saved = dayKey (db ! i)"
    by (simp add: saved_def dayKey_pre_save dayKey_stamp assms(4))
  have "indexKey saved \<notin> set (map indexKey (take i db @ drop (Suc i) db))"
  proof
    assume "indexKey saved \<in> set (map indexKey (take i db @ drop (Suc i) db))"
    then obtain e where e: "e \<in> set (take i db @ drop (Suc i) db)"
      and "indexKey saved = indexKey e"
      unfolding set_map by (rule imageE)
    then have eq: "dayKey e = dayKey (db ! i)" using key indexKey_dayKey [of saved e] by simp
    have "dayKey e \<in> dayKey ` set (take i db @ drop (Suc i) db)" using e by (rule imageI)
    then have "dayKey (db ! i) \<in> set (map dayKey (take i db @ drop (Suc i) db))"
      unfolding set_map eq .
    moreover have "dayKey (db ! i) \<notin> set (map dayKey (take i db @ drop (Suc i) db))"
      using assms(1,2) by (intro distinct_others) (simp_all add: ledger_ok_def onePerDay_def)
    ultimately show False by contradiction
  qed
  then show "progress_save now i doc db = Inr (saved, db[i := saved])"
    using assms(3) by (simp add: progress_save_def Let_def saved_def)
  show "ledger_ok (db[i := saved])"
    using assms(1,2) key
    by (rule ledger_ok_update) (simp_all add: saved_def valid_pre_save valid_stamp assms(3) tied_pre_save)
qed

lemma updateFields_valid:
  "progress_valid e \<Longrightarrow> input_ok val notes \<Longrightarrow>
   progress_valid (updateFields now completed val notes e)"
  by (auto simp: progress_valid_def input_ok_def updateFields_fields split: option.splits)

text \<open>
  On such a ledger an upsert with a valid value and notes succeeds, and its row is the row
  of the day in the ledger it leaves.
\<close>

lemma createOrUpdate_ok:
  assumes "ledger_ok db" and "input_ok val notes"
  obtains saved db' where
    "createOrUpdate now userId habitId date completed val notes db = Inr (saved, db')"
    "ledger_ok db'" "saved \<in> set db'" "p_date saved = startOfDay date"
    "p_user saved = userId" "p_habit saved = habitId"
proof (cases "findIndex (sameDay userId habitId (startOfDay date)) db")
  case None
  let ?new = "\<lparr>p_habit = habitId, p_user = userId, p_date = startOfDay date,
      p_completed = completed, p_completedAt = (if completed then Some now else None),
      p_notes = trim notes, p_value = val, p_streak = 0, p_isLateEntry = False,
      p_createdAt = now, p_updatedAt = now\<rparr>"
  define saved where "saved = progress_pre_save now (?new\<lparr>p_createdAt := now, p_updatedAt := now\<rparr>)"
  have valid: "progress_valid ?new"
    using assms(2) by (simp add: progress_valid_def input_ok_def)
  have key: "dayKey saved = (userId, habitId, dayOf date)"
    by (simp add: saved_def dayKey_pre_save) (simp add: dayKey_def dayOf_startOfDay)
  have fresh: "dayKey saved \<notin> set (map dayKey db)"
  proof
    assume "dayKey saved \<in> set (map dayKey db)"
    then obtain e where "e \<in> set db" and "dayKey e = (userId, habitId, dayOf date)"
      using key by auto
    then have "e \<in> set db" and "sameDay userId habitId (startOfDay date) e"
      by (simp_all add: sameDay_iff dayKey_def)
    with findIndex_None [OF None] show False by blast
  qed
  then have "indexKey saved \<notin> set (map indexKey db)"
    by (auto dest: indexKey_dayKey)
  then have run: "createOrUpdate now userId habitId date completed val notes db =
                  Inr (saved, db @ [saved])"
    using None valid
    by (simp add: createOrUpdate_def progress_create_def Let_def saved_def)
  have "progress_valid saved"
    unfolding saved_def valid_pre_save using valid by (simp add: progress_valid_def)
  moreover have "tied saved" by (simp add: saved_def tied_pre_save)
  ultimately have "progress_valid saved" and "tied saved" .
  then have ok: "ledger_ok (db @ [saved])"
    using assms(1) fresh by (simp add: ledger_ok_def onePerDay_def)
  have mem: "saved \<in> set (db @ [saved])" by simp
  have "p_date saved = startOfDay date" "p_user saved = userId" "p_habit saved = habitId"
    by (simp_all add: saved_def pre_save_fields startOfDay_idem)
  with run ok mem show ?thesis by (rule that)
next
  case (Some i)
  from findIndex_Some [OF Some] have i: "i < length db"
    and P: "sameDay userId habitId (startOfDay date) (db ! i)" by auto
  let ?doc = "updateFields now completed val notes (db ! i)"
  define saved where "saved = progress_pre_save now (stampModified now (db ! i) ?doc)"
  have "progress_valid (db ! i)"
    using assms(1) i by (simp add: ledger_ok_def list_all_length)
  then have valid: "progress_valid ?doc" using assms(2) by (rule updateFields_valid)
  have key: "dayKey ?doc = dayKey (db ! i)" by (simp add: dayKey_def updateFields_fields)
  from progress_save_ok [OF assms(1) i valid key, of now]
  have run: "createOrUpdate now userId habitId date completed val notes db =
             Inr (saved, db[i := saved])" and ok: "ledger_ok (db[i := saved])"
    using Some by (simp_all add: createOrUpdate_def saved_def)
  have mem: "saved \<in> set (db[i := saved])" using i by (rule set_update_memI)
  have day: "dayOf (p_date (db ! i)) = dayOf date" and "p_user (db ! i) = userId"
    and "p_habit (db ! i) = habitId"
    using P by (simp_all add: sameDay_iff)
  then have "p_date saved = startOfDay date" "p_user saved = userId" "p_habit saved = habitId"
    using startOfDay_same_day [OF day]
    by (simp_all add: saved_def pre_save_fields stamp_fields updateFields_fields)
  with run ok mem show ?thesis by (rule that)
qed

lemma applyUpsert_ledger_ok: "ledger_ok db \<Longrightarrow> ledger_ok (applyUpsert r db)"
proof (cases r)
  case (Upsert now userId habitId date completed val nts)
  assume ok: "ledger_ok db"
  show ?thesis
  proof (cases "createOrUpdate now userId habitId date completed val nts db")
    case (Inl e)
    then show ?thesis using ok Upsert by simp
  next
    case (Inr r')
    obtain saved db' where r': "r' = (saved, db')" by (cases r')
    note run = Inr [unfolded r']
    have one: "onePerDay db'"
      using run ok by (auto simp: ledger_ok_def dest: createOrUpdate_onePerDay)
    have tied: "tied saved" by (rule createOrUpdate_Inr(3) [OF run])
    have valid: "progress_valid saved" by (rule createOrUpdate_valid [OF run])
    have "set db' \<subseteq> insert saved (set db)"
      using createOrUpdate_Inr(1) [OF run] set_update_subset_insert [of db _ saved] by auto
    then have "list_all (\<lambda>e. progress_valid e \<and> tied e) db'"
      using ok tied valid by (auto simp: ledger_ok_def list_all_iff)
    with one have "ledger_ok db'" by (simp add: ledger_ok_def)
    then show ?thesis using Upsert Inr r' by simp
  qed
qed

lemma fold_applyUpsert_ledger_ok: "ledger_ok db \<Longrightarrow> ledger_ok (fold applyUpsert reqs db)"
  by (induction reqs arbitrary: db) (simp_all add: applyUpsert_ledger_ok)

lemma toggle_ok:
  assumes "ledger_ok db" and "i < length db"
  shows "\<exists>saved. toggleCompletion now i db = Inr (saved, db[i := saved]) \<and>
           ledger_ok (db[i := saved]) \<and> tied saved \<and>
           p_completed saved = (\<not> p_completed (db ! i)) \<and>
           p_completedAt saved = (if p_completed (db ! i) then None else Some now)"
proof -
  let ?doc = "(db ! i)\<lparr>p_completed := \<not> p_completed (db ! i)\<rparr>"
  let ?saved = "progress_pre_save now (stampModified now (db ! i) ?doc)"
  have row: "progress_valid (db ! i)" "tied (db ! i)"
    using assms by (simp_all add: ledger_ok_def list_all_length)
  have valid: "progress_valid ?doc" using row(1) by (simp add: progress_valid_def)
  have key: "dayKey ?doc = dayKey (db ! i)" by (simp add: dayKey_def)
  from progress_save_ok [OF assms valid key, of now]
  have "toggleCompletion now i db = Inr (?saved, db[i := ?saved])" and "ledger_ok (db[i := ?saved])"
    by (simp_all add: toggleCompletion_def Let_def)
  moreover have "tied ?saved" by (rule tied_pre_save)
  moreover have "p_completed ?saved = (\<not> p_completed (db ! i))"
    by (simp add: pre_save_fields stamp_fields)
  moreover have "p_completedAt ?saved = (if p_completed (db ! i) then None else Some now)"
    using row(2) by (auto simp: pre_save_completedAt stamp_fields tied_def)
  ultimately show ?thesis by blast
qed

lemma markCompleted_ok:
  assumes "ledger_ok db" and "i < length db" and "input_ok val notes"
  shows "\<exists>saved. markCompleted now val notes i db = Inr (saved, db[i := saved]) \<and>
           ledger_ok (db[i := saved]) \<and> tied saved \<and> p_completed saved \<and>
           p_completedAt saved = Some now"
proof -
  define doc where "doc =
    (let e1 = (db ! i)\<lparr>p_completed := True, p_completedAt := Some now\<rparr>;
         e2 = (if val \<noteq> None then e1\<lparr>p_value := val\<rparr> else e1)
     in if notes \<noteq> [] then e2\<lparr>p_notes := trim notes\<rparr> else e2)"
  let ?saved = "progress_pre_save now (stampModified now (db ! i) doc)"
  have row: "progress_valid (db ! i)"
    using assms by (simp add: ledger_ok_def list_all_length)
  have valid: "progress_valid doc"
    using row assms(3)
    by (auto simp: doc_def Let_def progress_valid_def input_ok_def split: option.splits)
  have key: "dayKey doc = dayKey (db ! i)" by (simp add: doc_def Let_def dayKey_def)
  have fields: "p_completed doc" "p_completedAt doc = Some now"
    by (simp_all add: doc_def Let_def)
  have run: "markCompleted now val notes i db = progress_save now i doc db"
    by (simp add: markCompleted_def doc_def Let_def)
  from progress_save_ok [OF assms(1,2) valid key, of now]
  have "markCompleted now val notes i db = Inr (?saved, db[i := ?saved])"
    and "ledger_ok (db[i := ?saved])"
    by (simp_all add: run)
  moreover have "tied ?saved" by (rule tied_pre_save)
  moreover have "p_completed ?saved" "p_completedAt ?saved = Some now"
    using fields by (simp_all add: pre_save_fields pre_save_completedAt stamp_fields)
  ultimately show ?thesis by blast
qed

lemma markIncomplete_ok:
  assumes "ledger_ok db" and "i < length db"
  shows "\<exists>saved. markIncomplete now i db = Inr (saved, db[i := saved]) \<and>
           ledger_ok (db[i := saved]) \<and> tied saved \<and> \<not> p_completed saved \<and>
           p_completedAt saved = None"
proof -
  let ?doc = "(db ! i)\<lparr>p_completed := False, p_completedAt := None\<rparr>"
  let ?saved = "progress_pre_save now (stampModified now (db ! i) ?doc)"
  have row: "progress_valid (db ! i)"
    using assms by (simp add: ledger_ok_def list_all_length)
  have valid: "progress_valid ?doc" using row by (simp add: progress_valid_def)
  have key: "dayKey ?doc = dayKey (db ! i)" by (simp add: dayKey_def)
  from progress_save_ok [OF assms valid key, of now]
  have "markIncomplete now i db = Inr (?saved, db[i := ?saved])" and "ledger_ok (db[i := ?saved])"
    by (simp_all add: markIncomplete_def)
  moreover have "tied ?saved" by (rule tied_pre_save)
  moreover have "\<not> p_completed ?saved" "p_completedAt ?saved = None"
    by (simp_all add: pre_save_fields pre_save_completedAt stamp_fields)
  ultimately show ?thesis by blast
qed

lemma createOrUpdate_stamp:
  assumes "ledger_ok db" and "input_ok val notes"
  shows "\<exists>saved db'. createOrUpdate now userId habitId date completed val notes db = Inr (saved, db') \<and>
           ledger_ok db' \<and> saved \<in> set db' \<and> tied saved \<and> p_completed saved = completed \<and>
           p_completedAt saved =
             (if completed
              then (case findIndex (sameDay userId habitId (startOfDay date)) db of
                      None \<Rightarrow> Some now
                    | Some j \<Rightarrow> (case p_completedAt (db ! j) of None \<Rightarrow> Some now | Some t \<Rightarrow> Some t))
              else None)"
proof -
  from createOrUpdate_ok [OF assms, of now userId habitId date completed]
  obtain saved db' where
    run: "createOrUpdate now userId habitId date completed val notes db = Inr (saved, db')"
    and ok: "ledger_ok db'" and mem: "saved \<in> set db'"
    by blast
  let ?P = "sameDay userId habitId (startOfDay date)"
  have "p_completedAt saved =
          (if completed
           then (case findIndex ?P db of
                   None \<Rightarrow> Some now
                 | Some j \<Rightarrow> (case p_completedAt (db ! j) of None \<Rightarrow> Some now | Some t \<Rightarrow> Some t))
           else None)"
  proof (cases "findIndex ?P db")
    case None
    with run have "progress_create now
        \<lparr>p_habit = habitId, p_user = userId, p_date = startOfDay date, p_completed = completed,
         p_completedAt = (if completed then Some now else None), p_notes = trim notes,
         p_value = val, p_streak = 0, p_isLateEntry = False,
         p_createdAt = now, p_updatedAt = now\<rparr> db = Inr (saved, db')"
      by (simp add: createOrUpdate_def Let_def)
    from progress_create_Inr [OF this] show ?thesis
      using None by (simp add: pre_save_completedAt)
  next
    case (Some j)
    with run have "progress_save now j (updateFields now completed val notes (db ! j)) db =
                   Inr (saved, db')"
      by (simp add: createOrUpdate_def Let_def)
    from progress_save_Inr [OF this] show ?thesis
      using Some
      by (simp add: pre_save_completedAt pre_save_fields stamp_fields updateFields_fields
          split: option.splits)
  qed
  with run ok mem createOrUpdate_Inr(2,3) [OF run] show ?thesis by blast
qed

text \<open>
  C3. A second upsert for the same user, habit and calendar day adds no row: on a ledger as
  saves leave it, and with values and notes that pass the validators, both calls succeed
  and the second writes the row of the first in place, with the completion flag, the
  value, the notes and the completion time that the second call asks for. Every upsert
  keeps a ledger with at most one row per user, habit and day so, and so does every
  sequence of upserts that starts from the empty ledger.
\<close>

theorem upsert_one_row_per_day:
  "ledger_ok (fold applyUpsert reqs []) \<and> onePerDay (fold applyUpsert reqs []) \<and>
   (onePerDay db \<longrightarrow> onePerDay (applyUpsert r db)) \<and>
   (createOrUpdate now1 userId habitId date1 completed1 val1 notes1 db = Inr (saved1, db1) \<and>
    dayOf date2 = dayOf date1 \<and>
    createOrUpdate now2 userId habitId date2 completed2 val2 notes2 db1 = Inr (saved2, db2)
      \<longrightarrow> length db2 = length db1 \<and> p_completed saved2 = completed2 \<and>
          (\<exists>i<length db1. db2 = db1[i := saved2] \<and> dayKey (db1 ! i) = dayKey saved1)) \<and>
   (ledger_ok db \<and> input_ok val1 notes1 \<and> input_ok val2 notes2 \<and> dayOf date2 = dayOf date1
      \<longrightarrow> (\<exists>first db' second i.
            createOrUpdate now1 userId habitId date1 completed1 val1 notes1 db = Inr (first, db') \<and>
            i < length db' \<and> db' ! i = first \<and>
            createOrUpdate now2 userId habitId date2 completed2 val2 notes2 db' =
              Inr (second, db'[i := second]) \<and>
            p_user second = userId \<and> p_habit second = habitId \<and> p_date second = p_date first \<and>
            p_completed second = completed2 \<and>
            p_value second = (case val2 of None \<Rightarrow> p_value first | Some v \<Rightarrow> Some v) \<and>
            p_notes second = (if notes2 = [] then p_notes first else trim notes2) \<and>
            p_completedAt second =
              (if completed2
               then (case p_completedAt first of None \<Rightarrow> Some now2 | Some t \<Rightarrow> Some t)
               else None)))"
proof (intro conjI impI)
  show ok0: "ledger_ok (fold applyUpsert reqs [])"
    by (rule fold_applyUpsert_ledger_ok) (simp add: ledger_ok_def onePerDay_def)
  then show "onePerDay (fold applyUpsert reqs [])" by (simp add: ledger_ok_def)
  show "onePerDay (applyUpsert r db)" if "onePerDay db"
    using that by (rule applyUpsert_onePerDay)
next
  assume a: "createOrUpdate now1 userId habitId date1 completed1 val1 notes1 db = Inr (saved1, db1) \<and>
    dayOf date2 = dayOf date1 \<and>
    createOrUpdate now2 userId habitId date2 completed2 val2 notes2 db1 = Inr (saved2, db2)"
  then have first: "createOrUpdate now1 userId habitId date1 completed1 val1 notes1 db = Inr (saved1, db1)"
    and day: "dayOf date2 = dayOf date1"
    and second: "createOrUpdate now2 userId habitId date2 completed2 val2 notes2 db1 = Inr (saved2, db2)"
    by simp_all
  have key1: "dayKey saved1 = (userId, habitId, dayOf date1)"
    using createOrUpdate_Inr(1) [OF first] by auto
  have "saved1 \<in> set db1"
    using createOrUpdate_Inr(1) [OF first] by (auto intro: set_update_memI)
  moreover have "sameDay userId habitId (startOfDay date2) saved1"
    using key1 day by (simp add: sameDay_iff dayKey_def)
  ultimately have found: "findIndex (sameDay userId habitId (startOfDay date2)) db1 \<noteq> None"
    by (rule findIndex_found)
  from createOrUpdate_Inr(1) [OF second] found obtain i where
    i: "i < length db1" "db2 = db1[i := saved2]" "dayKey saved2 = dayKey (db1 ! i)"
      "dayKey saved2 = (userId, habitId, dayOf date2)"
    by auto
  show "length db2 = length db1" using i by simp
  show "p_completed saved2 = completed2" by (rule createOrUpdate_Inr(2) [OF second])
  show "\<exists>i<length db1. db2 = db1[i := saved2] \<and> dayKey (db1 ! i) = dayKey saved1"
    using i key1 day by auto
next
  assume a: "ledger_ok db \<and> input_ok val1 notes1 \<and> input_ok val2 notes2 \<and>
             dayOf date2 = dayOf date1"
  then have ok: "ledger_ok db" and in1: "input_ok val1 notes1" and in2: "input_ok val2 notes2"
    and day: "dayOf date2 = dayOf date1"
    by simp_all
  let ?P = "sameDay userId habitId (startOfDay date2)"
  from createOrUpdate_ok [OF ok in1, of now1 userId habitId date1 completed1]
  obtain first db' where
    run1: "createOrUpdate now1 userId habitId date1 completed1 val1 notes1 db = Inr (first, db')"
    and ok': "ledger_ok db'" and mem: "first \<in> set db'"
    and f: "p_date first = startOfDay date1" "p_user first = userId" "p_habit first = habitId"
    by blast
  have norm: "startOfDay date2 = startOfDay date1" using day by (rule startOfDay_same_day)
  have "dayOf (p_date first) = dayOf date2" using f(1) day by (simp add: dayOf_startOfDay)
  then have Pf: "?P first" using f by (simp add: sameDay_iff)
  with mem have "findIndex ?P db' \<noteq> None" by (rule findIndex_found)
  then obtain i where idx: "findIndex ?P db' = Some i" by auto
  from findIndex_Some [OF idx] have i: "i < length db'" and Pi: "?P (db' ! i)" by auto
  have "dayKey (db' ! i) = dayKey first"
    using Pi Pf by (simp add: sameDay_iff dayKey_def)
  then have row: "db' ! i = first"
    using ok' mem i by (intro distinct_same_key [of dayKey]) (simp_all add: ledger_ok_def onePerDay_def)
  let ?doc = "updateFields now2 completed2 val2 notes2 first"
  define second where "second = progress_pre_save now2 (stampModified now2 first ?doc)"
  have "progress_valid first"
    using ok' mem by (auto simp: ledger_ok_def list_all_iff)
  then have valid: "progress_valid (updateFields now2 completed2 val2 notes2 (db' ! i))"
    unfolding row using in2 by (rule updateFields_valid)
  have key: "dayKey (updateFields now2 completed2 val2 notes2 (db' ! i)) = dayKey (db' ! i)"
    by (simp add: dayKey_def updateFields_fields)
  from progress_save_ok(1) [OF ok' i valid key, of now2]
  have run2: "createOrUpdate now2 userId habitId date2 completed2 val2 notes2 db' =
              Inr (second, db'[i := second])"
    using idx by (simp add: createOrUpdate_def second_def row)
  have "p_date second = p_date first"
    by (simp add: second_def pre_save_fields stamp_fields updateFields_fields f(1)
        startOfDay_idem)
  moreover have "p_user second = userId" "p_habit second = habitId"
    "p_completed second = completed2"
    "p_value second = (case val2 of None \<Rightarrow> p_value first | Some v \<Rightarrow> Some v)"
    "p_notes second = (if notes2 = [] then p_notes first else trim notes2)"
    by (simp_all add: second_def pre_save_fields stamp_fields updateFields_fields f)
  moreover have "p_completedAt second =
      (if completed2 then (case p_completedAt first of None \<Rightarrow> Some now2 | Some t \<Rightarrow> Some t)
       else None)"
    by (simp add: second_def pre_save_completedAt pre_save_fields stamp_fields
        updateFields_fields split: option.splits)
  ultimately show "\<exists>first db' second i.
      createOrUpdate now1 userId habitId date1 completed1 val1 notes1 db = Inr (first, db') \<and>
      i < length db' \<and> db' ! i = first \<and>
      createOrUpdate now2 userId habitId date2 completed2 val2 notes2 db' =
        Inr (second, db'[i := second]) \<and>
      p_user second = userId \<and> p_habit second = habitId \<and> p_date second = p_date first \<and>
      p_completed second = completed2 \<and>
      p_value second = (case val2 of None \<Rightarrow> p_value first | Some v \<Rightarrow> Some v) \<and>
      p_notes second = (if notes2 = [] then p_notes first else trim notes2) \<and>
      p_completedAt second =
        (if completed2
         then (case p_completedAt first of None \<Rightarrow> Some now2 | Some t \<Rightarrow> Some t)
         else None)"
    using run1 i row run2 by blast
qed

theorem upsert_one_row_per_day_witness:
  "(\<exists>first db' second i.
      createOrUpdate 1000 0 0 5 True None [] [] = Inr (first, db') \<and>
      i < length db' \<and> db' ! i = first \<and>
      createOrUpdate 2000 0 0 7 False (Some 3) ''ok'' db' = Inr (second, db'[i := second]) \<and>
      p_user second = 0 \<and> p_habit second = 0 \<and> p_date second = p_date first \<and>
      p_completed second = False \<and> p_value second = Some 3 \<and> p_notes second = ''ok'' \<and>
      p_completedAt second = None) \<and>
   createOrUpdate 1000 0 0 5 True None [] [] = Inr (entry1, [entry1]) \<and>
   createOrUpdate 2000 0 0 7 False (Some 3) ''ok'' [entry1] = Inr (entry2, [entry2])"
proof -
  have hyp: "ledger_ok [] \<and> input_ok None [] \<and> input_ok (Some 3) ''ok'' \<and> dayOf 7 = dayOf 5"
    by (simp add: ledger_ok_def onePerDay_def input_ok_def trim_def isSpace_def dayOf_def
        msPerDay_def)
  have ok: "trim ''ok'' = ''ok''" by (simp add: trim_def isSpace_def)
  from upsert_one_row_per_day
    [where db = "[]" and ?val1.0 = None and ?notes1.0 = "[]" and ?val2.0 = "Some 3"
       and ?notes2.0 = "''ok''" and ?date1.0 = 5 and ?date2.0 = 7 and ?now1.0 = 1000
       and ?now2.0 = 2000 and userId = 0 and habitId = 0 and ?completed1.0 = True
       and ?completed2.0 = False]
  have "\<exists>first db' second i.
      createOrUpdate 1000 0 0 5 True None [] [] = Inr (first, db') \<and>
      i < length db' \<and> db' ! i = first \<and>
      createOrUpdate 2000 0 0 7 False (Some 3) ''ok'' db' = Inr (second, db'[i := second]) \<and>
      p_user second = 0 \<and> p_habit second = 0 \<and> p_date second = p_date first \<and>
      p_completed second = False \<and> p_value second = Some 3 \<and> p_notes second = ''ok'' \<and>
      p_completedAt second = None"
    using hyp by (simp add: ok)
  moreover have "createOrUpdate 1000 0 0 5 True None [] [] = Inr (entry1, [entry1])"
    by (simp add: createOrUpdate_def startOfDay_def msPerDay_def progress_create_def
        progress_valid_def progress_pre_save_def indexKey_def trim_def Let_def entry1_def)
  moreover have "createOrUpdate 2000 0 0 7 False (Some 3) ''ok'' [entry1] = Inr (entry2, [entry2])"
    by (simp add: createOrUpdate_def startOfDay_def msPerDay_def sameDay_def progress_save_def
        progress_valid_def progress_pre_save_def stampModified_def updateFields_def
        indexKey_def trim_def isSpace_def Let_def entry1_def entry2_def)
  ultimately show ?thesis by blast
qed

lemma tied_list_update: "\<forall>e\<in>set db. tied e \<Longrightarrow> tied x \<Longrightarrow> \<forall>e\<in>set (db[i := x]). tied e"
  by (auto dest: set_update_subset_insert [THEN subsetD])

text \<open>
  C6. After an upsert, a toggle, \<^verbatim>\<open>markCompleted\<close> or \<^verbatim>\<open>markIncomplete\<close> that saves, the
  saved entry has \<^verbatim>\<open>completedAt\<close> set exactly when \<^verbatim>\<open>completed\<close> is true, and it is the
  entry in the ledger. On a ledger as saves leave it each of the four does save, given a
  value and notes that pass the validators, and leaves such a ledger: a toggle or an upsert
  from not completed to completed stamps the time of the call, \<^verbatim>\<open>markCompleted\<close> stamps it
  always, and a toggle, an upsert or \<^verbatim>\<open>markIncomplete\<close> to not completed clears the
  timestamp.
\<close>

theorem completedAt_iff_completed:
  "(createOrUpdate now userId habitId date completed val notes db0 = Inr (savedU, dbU)
      \<longrightarrow> tied savedU \<and> savedU \<in> set dbU \<and> p_completed savedU = completed \<and>
          ((\<forall>e\<in>set db0. tied e) \<longrightarrow> (\<forall>e\<in>set dbU. tied e))) \<and>
   (i < length db \<and> toggleCompletion now i db = Inr (savedT, dbT)
      \<longrightarrow> tied savedT \<and> dbT = db[i := savedT] \<and> dbT ! i = savedT \<and>
          p_completed savedT = (\<not> p_completed (db ! i)) \<and>
          (tied (db ! i) \<and> \<not> p_completed (db ! i) \<longrightarrow> p_completedAt savedT = Some now)) \<and>
   (i < length db \<and> markCompleted now val notes i db = Inr (savedC, dbC)
      \<longrightarrow> tied savedC \<and> dbC = db[i := savedC] \<and> dbC ! i = savedC \<and>
          p_completed savedC \<and> p_completedAt savedC = Some now) \<and>
   (i < length db \<and> markIncomplete now i db = Inr (savedI, dbI)
      \<longrightarrow> tied savedI \<and> dbI = db[i := savedI] \<and> dbI ! i = savedI \<and>
          \<not> p_completed savedI \<and> p_completedAt savedI = None) \<and>
   (ledger_ok db \<and> input_ok val notes
      \<longrightarrow> (\<exists>saved db'.
            createOrUpdate now userId habitId date completed val notes db = Inr (saved, db') \<and>
            ledger_ok db' \<and> saved \<in> set db' \<and> tied saved \<and> p_completed saved = completed \<and>
            p_completedAt saved =
              (if completed
               then (case findIndex (sameDay userId habitId (startOfDay date)) db of
                       None \<Rightarrow> Some now
                     | Some j \<Rightarrow>
                         (case p_completedAt (db ! j) of None \<Rightarrow> Some now | Some t \<Rightarrow> Some t))
               else None))) \<and>
   (ledger_ok db \<and> i < length db
      \<longrightarrow> (\<exists>saved. toggleCompletion now i db = Inr (saved, db[i := saved]) \<and>
            ledger_ok (db[i := saved]) \<and> tied saved \<and>
            p_completed saved = (\<not> p_completed (db ! i)) \<and>
            p_completedAt saved = (if p_completed (db ! i) then None else Some now))) \<and>
   (ledger_ok db \<and> i < length db \<and> input_ok val notes
      \<longrightarrow> (\<exists>saved. markCompleted now val notes i db = Inr (saved, db[i := saved]) \<and>
            ledger_ok (db[i := saved]) \<and> tied saved \<and> p_completed saved \<and>
            p_completedAt saved = Some now)) \<and>
   (ledger_ok db \<and> i < length db
      \<longrightarrow> (\<exists>saved. markIncomplete now i db = Inr (saved, db[i := saved]) \<and>
            ledger_ok (db[i := saved]) \<and> tied saved \<and> \<not> p_completed saved \<and>
            p_completedAt saved = None))"
proof (intro conjI impI)
  assume u: "createOrUpdate now userId habitId date completed val notes db0 = Inr (savedU, dbU)"
  show tu: "tied savedU" by (rule createOrUpdate_Inr(3) [OF u])
  show "p_completed savedU = completed" by (rule createOrUpdate_Inr(2) [OF u])
  show "savedU \<in> set dbU"
    using createOrUpdate_Inr(1) [OF u] by (auto intro: set_update_memI)
  show "\<forall>e\<in>set dbU. tied e" if "\<forall>e\<in>set db0. tied e"
    using createOrUpdate_Inr(1) [OF u] that tu tied_list_update [OF that tu] by auto
next
  assume t: "i < length db \<and> toggleCompletion now i db = Inr (savedT, dbT)"
  then have s: "savedT = progress_pre_save now
      (stampModified now (db ! i) ((db ! i)\<lparr>p_completed := \<not> p_completed (db ! i)\<rparr>))"
    and d: "dbT = db[i := savedT]"
    by (auto simp: toggleCompletion_def Let_def dest: progress_save_Inr)
  show "tied savedT" unfolding s by (rule tied_pre_save)
  show "dbT = db[i := savedT]" by (rule d)
  show "dbT ! i = savedT" using t d by simp
  show "p_completed savedT = (\<not> p_completed (db ! i))"
    unfolding s by (simp add: pre_save_fields stamp_fields)
  show "p_completedAt savedT = Some now" if "tied (db ! i) \<and> \<not> p_completed (db ! i)"
    using that unfolding s
    by (auto simp: pre_save_completedAt pre_save_fields stamp_fields tied_def
        split: option.splits)
next
  assume c: "i < length db \<and> markCompleted now val notes i db = Inr (savedC, dbC)"
  then obtain doc where s: "savedC = progress_pre_save now (stampModified now (db ! i) doc)"
    and d: "dbC = db[i := savedC]"
    and doc: "p_completed doc" "p_completedAt doc = Some now"
    by (auto simp: markCompleted_def Let_def dest: progress_save_Inr)
  show "tied savedC" unfolding s by (rule tied_pre_save)
  show "dbC = db[i := savedC]" by (rule d)
  show "dbC ! i = savedC" using c d by simp
  show "p_completed savedC" unfolding s using doc by (simp add: pre_save_fields stamp_fields)
  show "p_completedAt savedC = Some now"
    unfolding s using doc by (simp add: pre_save_completedAt stamp_fields)
next
  assume m: "i < length db \<and> markIncomplete now i db = Inr (savedI, dbI)"
  then have s: "savedI = progress_pre_save now
      (stampModified now (db ! i) ((db ! i)\<lparr>p_completed := False, p_completedAt := None\<rparr>))"
    and d: "dbI = db[i := savedI]"
    by (auto simp: markIncomplete_def dest: progress_save_Inr)
  show "tied savedI" unfolding s by (rule tied_pre_save)
  show "dbI = db[i := savedI]" by (rule d)
  show "dbI ! i = savedI" using m d by simp
  show "\<not> p_completed savedI" unfolding s by (simp add: pre_save_fields stamp_fields)
  show "p_completedAt savedI = None"
    unfolding s by (simp add: pre_save_completedAt stamp_fields)
next
  assume "ledger_ok db \<and> input_ok val notes"
  then show "\<exists>saved db'.
      createOrUpdate now userId habitId date completed val notes db = Inr (saved, db') \<and>
      ledger_ok db' \<and> saved \<in> set db' \<and> tied saved \<and> p_completed saved = completed \<and>
      p_completedAt saved =
        (if completed
         then (case findIndex (sameDay userId habitId (startOfDay date)) db of
                 None \<Rightarrow> Some now
               | Some j \<Rightarrow>
                   (case p_completedAt (db ! j) of None \<Rightarrow> Some now | Some t \<Rightarrow> Some t))
         else None)"
    by (intro createOrUpdate_stamp) simp_all
next
  assume "ledger_ok db \<and> i < length db"
  then show "\<exists>saved. toggleCompletion now i db = Inr (saved, db[i := saved]) \<and>
      ledger_ok (db[i := saved]) \<and> tied saved \<and>
      p_completed saved = (\<not> p_completed (db ! i)) \<and>
      p_completedAt saved = (if p_completed (db ! i) then None else Some now)"
    by (intro toggle_ok) simp_all
next
  assume "ledger_ok db \<and> i < length db \<and> input_ok val notes"
  then show "\<exists>saved. markCompleted now val notes i db = Inr (saved, db[i := saved]) \<and>
      ledger_ok (db[i := saved]) \<and> tied saved \<and> p_completed saved \<and>
      p_completedAt saved = Some now"
    by (intro markCompleted_ok) simp_all
next
  assume "ledger_ok db \<and> i < length db"
  then show "\<exists>saved. markIncomplete now i db = Inr (saved, db[i := saved]) \<and>
      ledger_ok (db[i := saved]) \<and> tied saved \<and> \<not> p_completed saved \<and>
      p_completedAt saved = None"
    by (intro markIncomplete_ok) simp_all
qed

theorem completedAt_iff_completed_witness:
  "(\<exists>saved db'. createOrUpdate 2000 0 0 7 False (Some 3) ''ok'' [entry1] = Inr (saved, db') \<and>
      ledger_ok db' \<and> saved \<in> set db' \<and> tied saved \<and> p_completed saved = False \<and>
      p_completedAt saved = None) \<and>
   (\<exists>saved. toggleCompletion 2000 0 [entry1] = Inr (saved, [entry1][0 := saved]) \<and>
      ledger_ok ([entry1][0 := saved]) \<and> tied saved \<and>
      p_completed saved = (\<not> p_completed entry1) \<and> p_completedAt saved = None) \<and>
   (\<exists>saved. toggleCompletion 3000 0 [entry3] = Inr (saved, [entry3][0 := saved]) \<and>
      ledger_ok ([entry3][0 := saved]) \<and> tied saved \<and>
      p_completed saved = (\<not> p_completed entry3) \<and> p_completedAt saved = Some 3000) \<and>
   (\<exists>saved. markCompleted 3000 (Some 3) ''ok'' 0 [entry3] = Inr (saved, [entry3][0 := saved]) \<and>
      ledger_ok ([entry3][0 := saved]) \<and> tied saved \<and> p_completed saved \<and>
      p_completedAt saved = Some 3000) \<and>
   (\<exists>saved. markIncomplete 2000 0 [entry1] = Inr (saved, [entry1][0 := saved]) \<and>
      ledger_ok ([entry1][0 := saved]) \<and> tied saved \<and> \<not> p_completed saved \<and>
      p_completedAt saved = None) \<and>
   toggleCompletion 2000 0 [entry1] = Inr (entry3, [entry3]) \<and>
   markIncomplete 2000 0 [entry1] = Inr (entry3, [entry3])"
proof -
  have ok1: "ledger_ok [entry1]" and ok3: "ledger_ok [entry3]"
    by (simp_all add: ledger_ok_def onePerDay_def progress_valid_def tied_def entry1_def
        entry3_def)
  have inp: "input_ok (Some 3) ''ok''"
    by (simp add: input_ok_def trim_def isSpace_def)
  note at1 = completedAt_iff_completed
    [where db = "[entry1]" and i = 0 and now = 2000 and val = "Some 3" and ?notes = "''ok''"
       and userId = 0 and habitId = 0 and date = 7 and completed = False,
     THEN conjunct2, THEN conjunct2, THEN conjunct2, THEN conjunct2]
  note at3 = completedAt_iff_completed
    [where db = "[entry3]" and i = 0 and now = 3000 and val = "Some 3" and ?notes = "''ok''",
     THEN conjunct2, THEN conjunct2, THEN conjunct2, THEN conjunct2]
  note upsert1 = at1 [THEN conjunct1]
  note toggle1 = at1 [THEN conjunct2, THEN conjunct1]
  note clear1 = at1 [THEN conjunct2, THEN conjunct2, THEN conjunct2]
  note toggle3 = at3 [THEN conjunct2, THEN conjunct1]
  note mark3 = at3 [THEN conjunct2, THEN conjunct2, THEN conjunct1]
  have "\<exists>saved db'. createOrUpdate 2000 0 0 7 False (Some 3) ''ok'' [entry1] = Inr (saved, db') \<and>
      ledger_ok db' \<and> saved \<in> set db' \<and> tied saved \<and> p_completed saved = False \<and>
      p_completedAt saved = None"
    using upsert1 ok1 inp by simp
  moreover have "\<exists>saved. toggleCompletion 2000 0 [entry1] = Inr (saved, [entry1][0 := saved]) \<and>
      ledger_ok ([entry1][0 := saved]) \<and> tied saved \<and>
      p_completed saved = (\<not> p_completed entry1) \<and> p_completedAt saved = None"
    using toggle1 ok1 by (simp add: entry1_def)
  moreover have "\<exists>saved. toggleCompletion 3000 0 [entry3] = Inr (saved, [entry3][0 := saved]) \<and>
      ledger_ok ([entry3][0 := saved]) \<and> tied saved \<and>
      p_completed saved = (\<not> p_completed entry3) \<and> p_completedAt saved = Some 3000"
    using toggle3 ok3 by (simp add: entry3_def)
  moreover have "\<exists>saved. markCompleted 3000 (Some 3) ''ok'' 0 [entry3] =
        Inr (saved, [entry3][0 := saved]) \<and>
      ledger_ok ([entry3][0 := saved]) \<and> tied saved \<and> p_completed saved \<and>
      p_completedAt saved = Some 3000"
    using mark3 ok3 inp by simp
  moreover have "\<exists>saved. markIncomplete 2000 0 [entry1] = Inr (saved, [entry1][0 := saved]) \<and>
      ledger_ok ([entry1][0 := saved]) \<and> tied saved \<and> \<not> p_completed saved \<and>
      p_completedAt saved = None"
    using clear1 ok1 by simp
  moreover have "toggleCompletion 2000 0 [entry1] = Inr (entry3, [entry3])"
    by (simp add: toggleCompletion_def progress_save_def progress_valid_def
        progress_pre_save_def stampModified_def indexKey_def startOfDay_def msPerDay_def
        Let_def entry1_def entry3_def)
  moreover have "markIncomplete 2000 0 [entry1] = Inr (entry3, [entry3])"
    by (simp add: markIncomplete_def progress_save_def progress_valid_def
        progress_pre_save_def stampModified_def indexKey_def startOfDay_def msPerDay_def
        Let_def entry1_def entry3_def)
  ultimately show ?thesis by blast
qed

section \<open>Groups\<close>

lemma set_dedupe: "set (dedupe xs) = set xs"
  by (simp add: dedupe_def)

lemma length_dedupe: "length (dedupe xs) \<le> length xs"
  unfolding dedupe_def using length_remdups_leq [of "rev xs"] by simp

lemma pre_save_group_fields:
  "g_creator (group_pre_save code g) = g_creator g"
  "g_maxMembers (group_pre_save code g) = g_maxMembers g"
  by (simp_all add: group_pre_save_def Let_def)

lemma pre_save_group_creator: "g_creator g \<in> set (g_members (group_pre_save code g))"
  by (auto simp: group_pre_save_def Let_def set_dedupe)

lemma pre_save_group_members:
  "set (g_members (group_pre_save code g)) = insert (g_creator g) (set (g_members g))"
  by (auto simp: group_pre_save_def Let_def set_dedupe)

lemma pre_save_group_length:
  "g_creator g \<in> set (g_members g) \<Longrightarrow>
   length (g_members (group_pre_save code g)) \<le> length (g_members g)"
  "length (g_members (group_pre_save code g)) \<le> Suc (length (g_members g))"
  using length_dedupe [of "g_members g"] length_dedupe [of "g_members g @ [g_creator g]"]
  by (auto simp: group_pre_save_def Let_def)

lemma group_save_inv:
  assumes "group_save now code loaded g = Inr g'"
  shows "g_creator g' = g_creator g" and "g_maxMembers g' = g_maxMembers g"
    and "g_creator g' \<in> set (g_members g')" and "1 \<le> g_maxMembers g'"
    and "g_creator g \<in> set (g_members g) \<Longrightarrow> length (g_members g') \<le> length (g_members g)"
    and "length (g_members g') \<le> Suc (length (g_members g))"
    and "set (g_members g') = insert (g_creator g) (set (g_members g))"
proof -
  define s where "s = (if g \<noteq> loaded then g\<lparr>g_updatedAt := now\<rparr> else g)"
  have s: "g_creator s = g_creator g" "g_maxMembers s = g_maxMembers g"
    "g_members s = g_members g"
    by (simp_all add: s_def)
  from assms have g': "g' = group_pre_save code s" and valid: "group_valid g"
    by (auto simp: group_save_def s_def split: if_splits)
  show "g_creator g' = g_creator g" and "g_maxMembers g' = g_maxMembers g"
    by (simp_all add: g' pre_save_group_fields s)
  show "g_creator g' \<in> set (g_members g')"
    by (simp add: g' pre_save_group_fields pre_save_group_creator)
  show "1 \<le> g_maxMembers g'"
    using valid by (simp add: g' pre_save_group_fields s group_valid_def)
  show "length (g_members g') \<le> length (g_members g)" if "g_creator g \<in> set (g_members g)"
    using that pre_save_group_length(1) [of s code] by (simp add: g' s)
  show "length (g_members g') \<le> Suc (length (g_members g))"
    using pre_save_group_length(2) [of code s] by (simp add: g' s)
  show "set (g_members g') = insert (g_creator g) (set (g_members g))"
    by (simp add: g' pre_save_group_members s)
qed

lemma group_create_inv:
  assumes "group_create now code g = Inr g'"
  shows "g_creator g' = g_creator g" and "g_maxMembers g' = g_maxMembers g"
    and "g_creator g' \<in> set (g_members g')" and "1 \<le> g_maxMembers g'"
    and "g_creator g \<in> set (g_members g) \<Longrightarrow> length (g_members g') \<le> length (g_members g)"
proof -
  define s where "s = g\<lparr>g_createdAt := now, g_updatedAt := now\<rparr>"
  have s: "g_creator s = g_creator g" "g_maxMembers s = g_maxMembers g"
    "g_members s = g_members g"
    by (simp_all add: s_def)
  from assms have g': "g' = group_pre_save code s" and valid: "group_valid g"
    by (auto simp: group_create_def s_def split: if_splits)
  show "g_creator g' = g_creator g" and "g_maxMembers g' = g_maxMembers g"
    by (simp_all add: g' pre_save_group_fields s)
  show "g_creator g' \<in> set (g_members g')"
    by (simp add: g' pre_save_group_fields pre_save_group_creator)
  show "1 \<le> g_maxMembers g'"
    using valid by (simp add: g' pre_save_group_fields s group_valid_def)
  show "length (g_members g') \<le> length (g_members g)" if "g_creator g \<in> set (g_members g)"
    using that pre_save_group_length(1) [of s code] by (simp add: g' s)
qed

lemma whole_room:
  assumes "whole m" and "of_nat n < m"
  shows "of_nat (Suc n) \<le> m"
proof -
  define k where "k = \<lfloor>m\<rfloor>"
  from assms(1) have m: "m = of_int k" unfolding whole_def k_def by (rule sym)
  have "(of_int (int n) :: rat) < of_int k" using assms(2) unfolding m by simp
  then have "int n < k" by (simp only: of_int_less_iff)
  then have "int (Suc n) \<le> k" by simp
  then have "(of_int (int (Suc n)) :: rat) \<le> of_int k" by (simp only: of_int_le_iff)
  then show ?thesis unfolding m by simp
qed

lemma addMember_inv:
  assumes "group_inv g" and "whole (g_maxMembers g)" and "addMember now code userId g = Inr g'"
  shows "group_inv g'" and "whole (g_maxMembers g')"
proof -
  let ?g = "if userId \<notin> set (g_members g) then g\<lparr>g_members := g_members g @ [userId]\<rparr> else g"
  from assms(3) have room: "of_nat (length (g_members g)) < g_maxMembers g"
    and save: "group_save now code g ?g = Inr g'"
    by (auto simp: addMember_def isFull_def memberCount_def split: if_splits)
  have "g_creator ?g \<in> set (g_members ?g)" using assms(1) by (simp add: group_inv_def)
  from group_save_inv(5) [OF save this] have "length (g_members g') \<le> length (g_members ?g)" .
  moreover have "length (g_members ?g) \<le> Suc (length (g_members g))" by simp
  ultimately have "length (g_members g') \<le> Suc (length (g_members g))" by (rule order_trans)
  then have "(of_nat (length (g_members g')) :: rat) \<le> of_nat (Suc (length (g_members g)))"
    by (simp only: of_nat_le_iff)
  also have "\<dots> \<le> g_maxMembers g" using assms(2) room by (rule whole_room)
  finally have "of_nat (length (g_members g')) \<le> g_maxMembers g" .
  moreover have m: "g_maxMembers g' = g_maxMembers g" using group_save_inv(2) [OF save] by simp
  ultimately show "group_inv g'"
    using group_save_inv(3) [OF save] by (simp add: group_inv_def)
  show "whole (g_maxMembers g')" using assms(2) m by simp
qed

lemma addMember_joins:
  assumes "group_valid g" and "\<not> isFull g" and "g_creator g \<in> set (g_members g)"
  shows "\<exists>g'. addMember now code userId g = Inr g' \<and>
           set (g_members g') = insert userId (set (g_members g))"
proof -
  let ?g = "if userId \<notin> set (g_members g) then g\<lparr>g_members := g_members g @ [userId]\<rparr> else g"
  have "group_valid ?g" using assms(1) by (simp add: group_valid_def)
  then obtain g' where save: "group_save now code g ?g = Inr g'"
    by (simp add: group_save_def)
  then have "addMember now code userId g = Inr g'"
    using assms(2) by (simp add: addMember_def)
  moreover have "set (g_members g') = insert userId (set (g_members g))"
    using group_save_inv(7) [OF save] assms(3) by auto
  ultimately show ?thesis by blast
qed

lemma removeMember_inv:
  assumes "group_inv g" and "removeMember now code userId g = Inr g'"
  shows "group_inv g'" and "g_maxMembers g' = g_maxMembers g"
proof -
  let ?ms = "filter (\<lambda>member. member \<noteq> userId) (g_members g)"
  let ?g = "g\<lparr>g_members := ?ms\<rparr>"
  from assms(2) have save: "group_save now code g ?g = Inr g'"
    by (simp add: removeMember_def)
  have cr: "g_creator g \<in> set (g_members g)"
    and le: "of_nat (length (g_members g)) \<le> g_maxMembers g"
    using assms(1) by (simp_all add: group_inv_def)
  have "length (g_members g') \<le> length (g_members g)"
  proof (cases "g_creator g = userId")
    case True
    then have "length ?ms < length (g_members g)"
      using cr by (simp add: length_filter_less)
    moreover have "length (g_members g') \<le> Suc (length ?ms)"
      using group_save_inv(6) [OF save] by simp
    ultimately show ?thesis by simp
  next
    case False
    then have "g_creator ?g \<in> set (g_members ?g)" using cr by simp
    from group_save_inv(5) [OF save this] have "length (g_members g') \<le> length ?ms" by simp
    moreover have "length ?ms \<le> length (g_members g)" by (rule length_filter_le)
    ultimately show ?thesis by (rule order_trans)
  qed
  then have "(of_nat (length (g_members g')) :: rat) \<le> of_nat (length (g_members g))"
    by (simp only: of_nat_le_iff)
  then have "of_nat (length (g_members g')) \<le> g_maxMembers g" using le by (rule order_trans)
  moreover show m: "g_maxMembers g' = g_maxMembers g" using group_save_inv(2) [OF save] by simp
  ultimately show "group_inv g'"
    using group_save_inv(3) [OF save] by (simp add: group_inv_def)
qed

text \<open>What each controller does to the collection of groups.\<close>

lemma createGroup_groups:
  "st_groups (snd (createGroup now userId body code st)) = st_groups st \<or>
   (\<exists>g. st_groups (snd (createGroup now userId body code st)) = st_groups st @ [g] \<and>
        group_inv g \<and> g_maxMembers g = orDefault 50 (gb_maxMembers body))"
proof (cases "gb_name body")
  case None
  then show ?thesis by (simp add: createGroup_def)
next
  case (Some name)
  let ?g = "\<lparr>g_name = trim name, g_description = trim (orDefault [] (gb_description body)),
    g_members = [userId], g_habits = [], g_creator = userId,
    g_isPrivate = orDefault False (gb_isPrivate body),
    g_maxMembers = orDefault 50 (gb_maxMembers body),
    g_inviteCode = None, g_isActive = True, g_createdAt = now, g_updatedAt = now\<rparr>"
  show ?thesis
  proof (cases "name = [] \<or> isl (group_create now code ?g)")
    case True
    then show ?thesis
      using Some by (auto simp: createGroup_def Let_def split: sum.splits)
  next
    case False
    then obtain saved where save: "group_create now code ?g = Inr saved"
      by (cases "group_create now code ?g") auto
    have "g_creator ?g \<in> set (g_members ?g)" by simp
    from group_create_inv(5) [OF save this] have "length (g_members saved) \<le> 1" by simp
    then have "(of_nat (length (g_members saved)) :: rat) \<le> of_nat 1"
      by (simp only: of_nat_le_iff)
    then have "of_nat (length (g_members saved)) \<le> g_maxMembers saved"
      using group_create_inv(4) [OF save] by simp
    then have "group_inv saved"
      using group_create_inv(3) [OF save] by (simp add: group_inv_def)
    moreover have "g_maxMembers saved = orDefault 50 (gb_maxMembers body)"
      using group_create_inv(2) [OF save] by simp
    ultimately show ?thesis
      using Some False save by (simp add: createGroup_def Let_def)
  qed
qed

lemma updateGroup_groups:
  "st_groups (snd (updateGroup now userId groupId body st)) = st_groups st \<or>
   (\<exists>g. findById groupId (st_groups st) = Some g \<and>
        st_groups (snd (updateGroup now userId groupId body st)) =
          (st_groups st)[groupId := applyUpdate now body g])"
  by (auto simp: updateGroup_def split: option.splits)

lemma joinGroup_groups:
  "st_groups (snd (joinGroup now userId groupId inviteCode code st)) = st_groups st \<or>
   (\<exists>g g'. findById groupId (st_groups st) = Some g \<and> addMember now code userId g = Inr g' \<and>
        st_groups (snd (joinGroup now userId groupId inviteCode code st)) =
          (st_groups st)[groupId := g'])"
proof (cases "findById groupId (st_groups st)")
  case None
  then show ?thesis by (simp add: joinGroup_def)
next
  case (Some g)
  show ?thesis
  proof (cases "addMember now code userId g")
    case (Inl e)
    then show ?thesis using Some by (simp add: joinGroup_def)
  next
    case (Inr g')
    then show ?thesis using Some by (simp add: joinGroup_def Let_def)
  qed
qed

lemma leaveGroup_groups:
  "st_groups (snd (leaveGroup now userId groupId code st)) = st_groups st \<or>
   (\<exists>g g'. findById groupId (st_groups st) = Some g \<and> removeMember now code userId g = Inr g' \<and>
        st_groups (snd (leaveGroup now userId groupId code st)) =
          (st_groups st)[groupId := g'])"
proof (cases "findById groupId (st_groups st)")
  case None
  then show ?thesis by (simp add: leaveGroup_def)
next
  case (Some g)
  show ?thesis
  proof (cases "removeMember now code userId g")
    case (Inl e)
    then show ?thesis using Some by (simp add: leaveGroup_def)
  next
    case (Inr g')
    then show ?thesis using Some by (simp add: leaveGroup_def Let_def)
  qed
qed

lemma findById_mem: "findById i xs = Some x \<Longrightarrow> x \<in> set xs"
  by (auto simp: findById_def split: if_splits)

lemma all_list_update: "\<forall>x\<in>set xs. P x \<Longrightarrow> P y \<Longrightarrow> \<forall>x\<in>set (xs[i := y]). P x"
  by (auto dest: set_update_subset_insert [THEN subsetD])

lemma whole_default: "whole 50"
  by (simp add: whole_def)

lemma created_whole:
  assumes "case gb_maxMembers body of None \<Rightarrow> True | Some m \<Rightarrow> whole m"
  shows "whole (orDefault 50 (gb_maxMembers body))"
proof (cases "gb_maxMembers body")
  case None
  then show ?thesis by (simp add: orDefault_def whole_default)
next
  case (Some m)
  then show ?thesis using assms by (simp add: orDefault_def)
qed

lemma updated_ok:
  assumes "group_inv g" and "whole (g_maxMembers g)"
    and "case gb_maxMembers body of None \<Rightarrow> True
         | Some m \<Rightarrow> whole m \<and> of_nat (length (g_members g)) \<le> m"
  shows "group_inv (applyUpdate now body g) \<and> whole (g_maxMembers (applyUpdate now body g))"
proof (cases "gb_maxMembers body")
  case None
  then show ?thesis using assms(1,2) by (simp add: applyUpdate_def orDefault_def group_inv_def)
next
  case (Some m)
  then have "whole m" and "of_nat (length (g_members g)) \<le> m" using assms(3) by simp_all
  then show ?thesis
    using Some assms(1) by (simp add: applyUpdate_def orDefault_def group_inv_def)
qed

lemma group_step_ok:
  assumes "groups_ok st" and "respects_limit op st"
  shows "groups_ok (group_step op st)"
proof -
  let ?ok = "\<lambda>g. group_inv g \<and> whole (g_maxMembers g)"
  have all: "\<forall>g\<in>set (st_groups st). ?ok g"
    using assms(1) by (simp add: groups_ok_def list_all_iff)
  have "\<forall>g\<in>set (st_groups (group_step op st)). ?ok g"
  proof (cases op)
    case (CreateGroup now userId body code)
    from createGroup_groups [of now userId body code st] show ?thesis
    proof (elim disjE exE conjE)
      fix g
      assume eq: "st_groups (snd (createGroup now userId body code st)) = st_groups st @ [g]"
        and inv: "group_inv g" and m: "g_maxMembers g = orDefault 50 (gb_maxMembers body)"
      have "case gb_maxMembers body of None \<Rightarrow> True | Some m \<Rightarrow> whole m"
        using assms(2) unfolding CreateGroup by simp
      then have "whole (g_maxMembers g)" unfolding m by (rule created_whole)
      then show ?thesis using all inv unfolding CreateGroup group_step.simps eq by simp
    next
      assume "st_groups (snd (createGroup now userId body code st)) = st_groups st"
      then show ?thesis using all unfolding CreateGroup group_step.simps by simp
    qed
  next
    case (UpdateGroup now userId groupId body)
    from updateGroup_groups [of now userId groupId body st] show ?thesis
    proof (elim disjE exE conjE)
      fix g
      assume found: "findById groupId (st_groups st) = Some g"
        and eq: "st_groups (snd (updateGroup now userId groupId body st)) =
                 (st_groups st)[groupId := applyUpdate now body g]"
      then have g: "group_inv g" "whole (g_maxMembers g)"
        using all by (auto dest: findById_mem)
      have "case gb_maxMembers body of None \<Rightarrow> True
            | Some m \<Rightarrow> whole m \<and> of_nat (length (g_members g)) \<le> m"
        using assms(2) found unfolding UpdateGroup by (simp split: option.splits)
      with g have "?ok (applyUpdate now body g)" by (rule updated_ok)
      then show ?thesis
        unfolding UpdateGroup group_step.simps eq by (rule all_list_update [OF all])
    next
      assume "st_groups (snd (updateGroup now userId groupId body st)) = st_groups st"
      then show ?thesis using all unfolding UpdateGroup group_step.simps by simp
    qed
  next
    case (JoinGroup now userId groupId inviteCode code)
    from joinGroup_groups [of now userId groupId inviteCode code st] show ?thesis
    proof (elim disjE exE conjE)
      fix g g'
      assume "findById groupId (st_groups st) = Some g"
        and add: "addMember now code userId g = Inr g'"
        and eq: "st_groups (snd (joinGroup now userId groupId inviteCode code st)) =
                 (st_groups st)[groupId := g']"
      then have "group_inv g" "whole (g_maxMembers g)" using all by (auto dest: findById_mem)
      then have "?ok g'" using add addMember_inv [of g now code userId g'] by blast
      then show ?thesis
        unfolding JoinGroup group_step.simps eq by (rule all_list_update [OF all])
    next
      assume "st_groups (snd (joinGroup now userId groupId inviteCode code st)) = st_groups st"
      then show ?thesis using all unfolding JoinGroup group_step.simps by simp
    qed
  next
    case (LeaveGroup now userId groupId code)
    from leaveGroup_groups [of now userId groupId code st] show ?thesis
    proof (elim disjE exE conjE)
      fix g g'
      assume "findById groupId (st_groups st) = Some g"
        and rm: "removeMember now code userId g = Inr g'"
        and eq: "st_groups (snd (leaveGroup now userId groupId code st)) =
                 (st_groups st)[groupId := g']"
      then have "group_inv g" "whole (g_maxMembers g)" using all by (auto dest: findById_mem)
      then have "?ok g'" using rm removeMember_inv [of g now code userId g'] by simp
      then show ?thesis
        unfolding LeaveGroup group_step.simps eq by (rule all_list_update [OF all])
    next
      assume "st_groups (snd (leaveGroup now userId groupId code st)) = st_groups st"
      then show ?thesis using all unfolding LeaveGroup group_step.simps by simp
    qed
  qed
  then show ?thesis by (simp add: groups_ok_def list_all_iff)
qed

lemma group_step_creator:
  assumes "\<forall>g\<in>set (st_groups st). g_creator g \<in> set (g_members g)"
  shows "\<forall>g\<in>set (st_groups (group_step op st)). g_creator g \<in> set (g_members g)"
proof (cases op)
  case (CreateGroup now userId body code)
  then show ?thesis
    using assms createGroup_groups [of now userId body code st] by (auto simp: group_inv_def)
next
  case (UpdateGroup now userId groupId body)
  from updateGroup_groups [of now userId groupId body st] show ?thesis
  proof (elim disjE exE conjE)
    fix g
    assume "findById groupId (st_groups st) = Some g"
      and eq: "st_groups (snd (updateGroup now userId groupId body st)) =
               (st_groups st)[groupId := applyUpdate now body g]"
    then have "g_creator g \<in> set (g_members g)" using assms by (auto dest: findById_mem)
    then have "g_creator (applyUpdate now body g) \<in> set (g_members (applyUpdate now body g))"
      by (simp add: applyUpdate_def)
    then show ?thesis
      unfolding UpdateGroup group_step.simps eq by (rule all_list_update [OF assms])
  qed (simp add: UpdateGroup assms)
next
  case (JoinGroup now userId groupId inviteCode code)
  from joinGroup_groups [of now userId groupId inviteCode code st] show ?thesis
  proof (elim disjE exE conjE)
    fix g g'
    assume add: "addMember now code userId g = Inr g'"
      and eq: "st_groups (snd (joinGroup now userId groupId inviteCode code st)) =
               (st_groups st)[groupId := g']"
    from add have "g_creator g' \<in> set (g_members g')"
      by (auto simp: addMember_def split: if_splits dest: group_save_inv(3))
    then show ?thesis
      unfolding JoinGroup group_step.simps eq by (rule all_list_update [OF assms])
  qed (simp add: JoinGroup assms)
next
  case (LeaveGroup now userId groupId code)
  from leaveGroup_groups [of now userId groupId code st] show ?thesis
  proof (elim disjE exE conjE)
    fix g g'
    assume rm: "removeMember now code userId g = Inr g'"
      and eq: "st_groups (snd (leaveGroup now userId groupId code st)) =
               (st_groups st)[groupId := g']"
    from rm have "g_creator g' \<in> set (g_members g')"
      by (auto simp: removeMember_def dest: group_save_inv(3))
    then show ?thesis
      unfolding LeaveGroup group_step.simps eq by (rule all_list_update [OF assms])
  qed (simp add: LeaveGroup assms)
qed

lemma fold_group_step_ok:
  "groups_ok st \<Longrightarrow> admissible ops st \<Longrightarrow> groups_ok (fold group_step ops st)"
proof (induction ops arbitrary: st)
  case Nil
  then show ?case by simp
next
  case (Cons op ops)
  have "groups_ok (group_step op st)"
    using Cons.prems by (intro group_step_ok) simp_all
  then show ?case using Cons.prems(2) by (simp add: Cons.IH)
qed

lemma fold_group_step_creator:
  "\<forall>g\<in>set (st_groups st). g_creator g \<in> set (g_members g) \<Longrightarrow>
   \<forall>g\<in>set (st_groups (fold group_step ops st)). g_creator g \<in> set (g_members g)"
proof (induction ops arbitrary: st)
  case Nil
  then show ?case by simp
next
  case (Cons op ops)
  have "\<forall>g\<in>set (st_groups (group_step op st)). g_creator g \<in> set (g_members g)"
    using Cons.prems by (rule group_step_creator)
  then show ?case by (simp add: Cons.IH)
qed

text \<open>
  C7. The claim: after every sequence of create, update, join and leave requests every
  group has at most \<^verbatim>\<open>maxMembers\<close> members and has its creator among them. As amended:
  the creator is among the members after every such sequence; the member count stays
  within \<^verbatim>\<open>maxMembers\<close> along every sequence in which each \<^verbatim>\<open>maxMembers\<close> of a
  create or update request is a whole number and no update sets \<^verbatim>\<open>maxMembers\<close> below
  the number of members that the group has. \<^verbatim>\<open>addMember\<close> keeps both for a whole limit,
  \<^verbatim>\<open>removeMember\<close> keeps both, and \<^verbatim>\<open>addMember\<close> does add the user to a valid group that
  is not full.
\<close>

theorem group_invariant_kept:
  "(groups_ok st \<and> admissible ops st
      \<longrightarrow> (\<forall>g\<in>set (st_groups (fold group_step ops st)). group_inv g)) \<and>
   ((\<forall>g\<in>set (st_groups st). g_creator g \<in> set (g_members g))
      \<longrightarrow> (\<forall>g\<in>set (st_groups (fold group_step ops' st)). g_creator g \<in> set (g_members g))) \<and>
   (group_inv g \<and> whole (g_maxMembers g) \<and> addMember now code userId g = Inr g'
      \<longrightarrow> group_inv g' \<and> whole (g_maxMembers g')) \<and>
   (group_inv g' \<and> removeMember now code userId g' = Inr g''
      \<longrightarrow> group_inv g'' \<and> g_maxMembers g'' = g_maxMembers g') \<and>
   (group_valid g \<and> \<not> isFull g \<and> g_creator g \<in> set (g_members g)
      \<longrightarrow> (\<exists>joined. addMember now code userId g = Inr joined \<and>
                set (g_members joined) = insert userId (set (g_members g))))"
proof (intro conjI impI)
  assume "groups_ok st \<and> admissible ops st"
  then have "groups_ok (fold group_step ops st)" by (simp add: fold_group_step_ok)
  then show "\<forall>g\<in>set (st_groups (fold group_step ops st)). group_inv g"
    by (simp add: groups_ok_def list_all_iff)
next
  assume "\<forall>g\<in>set (st_groups st). g_creator g \<in> set (g_members g)"
  then show "\<forall>g\<in>set (st_groups (fold group_step ops' st)). g_creator g \<in> set (g_members g)"
    by (rule fold_group_step_creator)
next
  assume a: "group_inv g \<and> whole (g_maxMembers g) \<and> addMember now code userId g = Inr g'"
  then show "group_inv g'" and "whole (g_maxMembers g')"
    using addMember_inv [of g now code userId g'] by simp_all
next
  assume r: "group_inv g' \<and> removeMember now code userId g' = Inr g''"
  then show "group_inv g''" and "g_maxMembers g'' = g_maxMembers g'"
    using removeMember_inv [of g' now code userId g''] by simp_all
next
  assume "group_valid g \<and> \<not> isFull g \<and> g_creator g \<in> set (g_members g)"
  then show "\<exists>joined. addMember now code userId g = Inr joined \<and>
      set (g_members joined) = insert userId (set (g_members g))"
    by (intro addMember_joins) simp_all
qed

theorem group_invariant_kept_witness:
  "st_groups (fold group_step
     [JoinGroup 0 1 0 None ''ABCD1234'', UpdateGroup 0 0 0 (noBody\<lparr>gb_maxMembers := Some 2\<rparr>),
      LeaveGroup 0 1 0 ''ABCD1234''] store1) = [group1\<lparr>g_maxMembers := 2\<rparr>] \<and>
   group_inv (group1\<lparr>g_maxMembers := 2\<rparr>) \<and>
   st_groups (fold group_step
     [JoinGroup 0 1 0 None ''ABCD1234'', UpdateGroup 0 0 0 (noBody\<lparr>gb_maxMembers := Some 1\<rparr>)]
     store1) = [group1\<lparr>g_members := [0, 1], g_maxMembers := 1\<rparr>] \<and>
   g_creator (group1\<lparr>g_members := [0, 1], g_maxMembers := 1\<rparr>) \<in>
     set (g_members (group1\<lparr>g_members := [0, 1], g_maxMembers := 1\<rparr>)) \<and>
   addMember 0 ''ABCD1234'' 1 group1 = Inr (group1\<lparr>g_members := [0, 1]\<rparr>) \<and>
   group_inv (group1\<lparr>g_members := [0, 1]\<rparr>) \<and>
   removeMember 0 ''ABCD1234'' 1 (group1\<lparr>g_members := [0, 1]\<rparr>) = Inr group1 \<and>
   group_inv group1 \<and>
   (\<exists>joined. addMember 0 ''ABCD1234'' 1 group1 = Inr joined \<and>
      set (g_members joined) = insert 1 (set (g_members group1)))"
proof -
  let ?ops = "[JoinGroup 0 1 0 None ''ABCD1234'',
               UpdateGroup 0 0 0 (noBody\<lparr>gb_maxMembers := Some 2\<rparr>),
               LeaveGroup 0 1 0 ''ABCD1234'']"
  let ?ops' = "[JoinGroup 0 1 0 None ''ABCD1234'',
                UpdateGroup 0 0 0 (noBody\<lparr>gb_maxMembers := Some 1\<rparr>)]"
  note defs = store1_def group1_def noBody_def group_inv_def joinGroup_def leaveGroup_def
    updateGroup_def update_valid_def applyUpdate_def orDefault_def findById_def
    updateById_def addMember_def removeMember_def isFull_def memberCount_def group_save_def
    group_valid_def group_pre_save_def dedupe_def whole_def groups_ok_def
  have run: "st_groups (fold group_step ?ops store1) = [group1\<lparr>g_maxMembers := 2\<rparr>]"
    by (simp add: defs)
  have run': "st_groups (fold group_step ?ops' store1) =
      [group1\<lparr>g_members := [0, 1], g_maxMembers := 1\<rparr>]"
    by (simp add: defs)
  have add: "addMember 0 ''ABCD1234'' 1 group1 = Inr (group1\<lparr>g_members := [0, 1]\<rparr>)"
    by (simp add: defs)
  have rm: "removeMember 0 ''ABCD1234'' 1 (group1\<lparr>g_members := [0, 1]\<rparr>) = Inr group1"
    by (simp add: defs)
  have hyp: "groups_ok store1 \<and> admissible ?ops store1"
    by (simp add: defs)
  have start: "\<forall>g\<in>set (st_groups store1). g_creator g \<in> set (g_members g)"
    and g1: "group_inv group1 \<and> whole (g_maxMembers group1)"
    and v1: "group_valid group1 \<and> \<not> isFull group1 \<and> g_creator group1 \<in> set (g_members group1)"
    by (simp_all add: defs)
  note inst = group_invariant_kept
    [where st = store1 and ops = ?ops and ops' = ?ops' and g = group1 and now = 0
       and code = "''ABCD1234''" and userId = 1 and g' = "group1\<lparr>g_members := [0, 1]\<rparr>"
       and g'' = group1]
  have "\<forall>g\<in>set (st_groups (fold group_step ?ops store1)). group_inv g"
    using inst [THEN conjunct1] hyp by (rule mp)
  then have a: "group_inv (group1\<lparr>g_maxMembers := 2\<rparr>)" unfolding run by simp
  have "\<forall>g\<in>set (st_groups (fold group_step ?ops' store1)). g_creator g \<in> set (g_members g)"
    using inst [THEN conjunct2, THEN conjunct1] start by (rule mp)
  then have b: "g_creator (group1\<lparr>g_members := [0, 1], g_maxMembers := 1\<rparr>) \<in>
      set (g_members (group1\<lparr>g_members := [0, 1], g_maxMembers := 1\<rparr>))"
    unfolding run' by simp
  have c: "group_inv (group1\<lparr>g_members := [0, 1]\<rparr>)"
    using inst [THEN conjunct2, THEN conjunct2, THEN conjunct1] g1 add by simp
  have d: "group_inv group1"
    using inst [THEN conjunct2, THEN conjunct2, THEN conjunct2, THEN conjunct1] c rm by simp
  have e: "\<exists>joined. addMember 0 ''ABCD1234'' 1 group1 = Inr joined \<and>
      set (g_members joined) = insert 1 (set (g_members group1))"
    using inst [THEN conjunct2, THEN conjunct2, THEN conjunct2, THEN conjunct2] v1 by (rule mp)
  from run a run' b add c rm d e show ?thesis by blast
qed

text \<open>
  Against the claim as stated: a group is created, a second user joins, and the creator
  lowers \<^verbatim>\<open>maxMembers\<close> to 1, so that the group has two members; and a group is created
  with \<^verbatim>\<open>maxMembers\<close> 3/2, which \<^verbatim>\<open>isFull\<close> does not see as reached by one member, and a
  second user joins.
\<close>

theorem member_limit_exceeded:
  "st_groups (fold group_step
     [CreateGroup 0 0 (noBody\<lparr>gb_name := Some ''Readers''\<rparr>) ''EFGH5678'',
      JoinGroup 0 1 0 None ''ABCD1234'',
      UpdateGroup 0 0 0 (noBody\<lparr>gb_maxMembers := Some 1\<rparr>)] emptyStore) =
     [group1\<lparr>g_members := [0, 1], g_maxMembers := 1\<rparr>] \<and>
   \<not> group_inv (group1\<lparr>g_members := [0, 1], g_maxMembers := 1\<rparr>) \<and>
   st_groups (fold group_step
     [CreateGroup 0 0 (noBody\<lparr>gb_name := Some ''Readers'', gb_maxMembers := Some (3 / 2)\<rparr>)
        ''EFGH5678'',
      JoinGroup 0 1 0 None ''ABCD1234''] emptyStore) =
     [group1\<lparr>g_members := [0, 1], g_maxMembers := 3 / 2\<rparr>] \<and>
   \<not> group_inv (group1\<lparr>g_members := [0, 1], g_maxMembers := 3 / 2\<rparr>)"
  by (simp add: emptyStore_def noBody_def group1_def group_inv_def createGroup_def
      joinGroup_def updateGroup_def update_valid_def applyUpdate_def orDefault_def
      findById_def updateById_def addMember_def isFull_def memberCount_def group_save_def
      group_create_def group_valid_def group_pre_save_def dedupe_def trim_def isSpace_def)

text \<open>
  C8. The claim: a join request of a non-member to a group that is full fails with a
  conflict error and leaves the members unchanged. As amended: it leaves the store
  unchanged, and it is answered with status 400 and the message that the group is full when
  the group is active, and with status 404, as for a group that does not exist, when the
  group is inactive.
\<close>

theorem join_full_group_rejected:
  "findById groupId (st_groups st) = Some g \<and> userId \<notin> set (g_members g) \<and>
   of_nat (length (g_members g)) \<ge> g_maxMembers g
     \<longrightarrow> joinGroup now userId groupId inviteCode code st =
           (if g_isActive g then Response 400 ''Group is full''
            else Response 404 ''Group not found'', st)"
  by (simp add: joinGroup_def isFull_def memberCount_def)

theorem join_full_group_rejected_witness:
  "joinGroup 1000 1 0 None [] (store0\<lparr>st_groups := [group0\<lparr>g_isActive := True\<rparr>]\<rparr>) =
     (Response 400 ''Group is full'', store0\<lparr>st_groups := [group0\<lparr>g_isActive := True\<rparr>]\<rparr>)"
  using join_full_group_rejected
    [of 0 "store0\<lparr>st_groups := [group0\<lparr>g_isActive := True\<rparr>]\<rparr>" "group0\<lparr>g_isActive := True\<rparr>"
        1 1000 None "[]"]
  by (simp add: findById_def group0_def)

text \<open>
  Against the claim as stated: the inactive group of \<open>store0\<close> is full and user 1 is not a
  member; the join request is answered as for a group that does not exist.
\<close>

theorem join_full_inactive_group_not_found:
  "findById 0 (st_groups store0) = Some group0 \<and>
   of_nat (length (g_members group0)) = g_maxMembers group0 \<and> 1 \<notin> set (g_members group0) \<and>
   fst (joinGroup 1000 1 0 None [] store0) = Response 404 ''Group not found'' \<and>
   fst (joinGroup 1000 1 0 None [] store0) \<noteq> Response 400 ''Group is full''"
  by (simp add: store0_def group0_def findById_def joinGroup_def)

section \<open>Logging progress and deleting habits\<close>




text \<open>
  C10. The claim: when its creator deletes a habit, the habit document changes in
  \<^verbatim>\<open>isActive\<close> only. As amended: the habit document changes in \<^verbatim>\<open>isActive\<close>, which
  becomes false, and in \<^verbatim>\<open>updatedAt\<close>, which becomes the time of the request; every other
  field of the habit, every other habit and every progress entry stay as they were. The
  habit's id is pulled from the creator's \<^verbatim>\<open>createdHabits\<close> and from the \<^verbatim>\<open>habits\<close> of
  every group, and the user and the groups that held it get the time of the request as
  their \<^verbatim>\<open>updatedAt\<close>; nothing else changes in the users and the groups. A request of
  anyone who is not the creator of an existing habit leaves the store as it was.
\<close>

theorem deleteHabit_frame:
  "(findById habitId (st_habits st) = Some habit \<and> h_creator habit = userId \<longrightarrow>
      deleteHabit now userId habitId st =
        (Response 200 ''Habit deleted successfully'',
         st\<lparr>st_habits :=
              (st_habits st)[habitId := habit\<lparr>h_isActive := False, h_updatedAt := now\<rparr>],
            st_users := updateById userId
              (\<lambda>u. u\<lparr>u_createdHabits := removeAll habitId (u_createdHabits u),
                     u_updatedAt := now\<rparr>) (st_users st),
            st_groups := map
              (\<lambda>g. if habitId \<in> set (g_habits g)
                    then g\<lparr>g_habits := removeAll habitId (g_habits g), g_updatedAt := now\<rparr>
                    else g)
              (st_groups st)\<rparr>) \<and>
      st_progress (snd (deleteHabit now userId habitId st)) = st_progress st \<and>
      (\<forall>g\<in>set (st_groups (snd (deleteHabit now userId habitId st))).
         habitId \<notin> set (g_habits g)) \<and>
      (\<forall>u. findById userId (st_users (snd (deleteHabit now userId habitId st))) = Some u
           \<longrightarrow> habitId \<notin> set (u_createdHabits u))) \<and>
   (\<not> (\<exists>h. findById habitId (st_habits st) = Some h \<and> h_creator h = userId) \<longrightarrow>
      snd (deleteHabit now userId habitId st) = st)"
proof (intro conjI impI)
  assume a: "findById habitId (st_habits st) = Some habit \<and> h_creator habit = userId"
  then have i: "habitId < length (st_habits st)" and h: "st_habits st ! habitId = habit"
    by (auto simp: findById_def split: if_splits)
  show eq: "deleteHabit now userId habitId st =
        (Response 200 ''Habit deleted successfully'',
         st\<lparr>st_habits :=
              (st_habits st)[habitId := habit\<lparr>h_isActive := False, h_updatedAt := now\<rparr>],
            st_users := updateById userId
              (\<lambda>u. u\<lparr>u_createdHabits := removeAll habitId (u_createdHabits u),
                     u_updatedAt := now\<rparr>) (st_users st),
            st_groups := map
              (\<lambda>g. if habitId \<in> set (g_habits g)
                    then g\<lparr>g_habits := removeAll habitId (g_habits g), g_updatedAt := now\<rparr>
                    else g)
              (st_groups st)\<rparr>)"
    using a i h by (simp add: deleteHabit_def Let_def updateById_def)
  show "st_progress (snd (deleteHabit now userId habitId st)) = st_progress st"
    unfolding eq by simp
  show "\<forall>g\<in>set (st_groups (snd (deleteHabit now userId habitId st))).
          habitId \<notin> set (g_habits g)"
    unfolding eq by auto
  show "\<forall>u. findById userId (st_users (snd (deleteHabit now userId habitId st))) = Some u
           \<longrightarrow> habitId \<notin> set (u_createdHabits u)"
    unfolding eq by (auto simp: findById_def updateById_def split: if_splits)
next
  assume "\<not> (\<exists>h. findById habitId (st_habits st) = Some h \<and> h_creator h = userId)"
  then show "snd (deleteHabit now userId habitId st) = st"
    by (auto simp: deleteHabit_def split: option.splits)
qed

theorem deleteHabit_frame_witness:
  "deleteHabit 1000 0 0 store0 =
     (Response 200 ''Habit deleted successfully'',
      store0\<lparr>st_habits := [habit0\<lparr>h_isActive := False, h_updatedAt := 1000\<rparr>],
             st_users := [\<lparr>u_joinedGroups = [], u_createdHabits = [], u_updatedAt = 1000\<rparr>,
                          \<lparr>u_joinedGroups = [], u_createdHabits = [], u_updatedAt = 0\<rparr>],
             st_groups := [group0\<lparr>g_habits := [], g_updatedAt := 1000\<rparr>]\<rparr>) \<and>
   snd (deleteHabit 1000 1 0 store0) = store0"
  using deleteHabit_frame [of 0 store0 habit0 0 1000] deleteHabit_frame [of 0 store0 habit0 1 1000]
  by (simp add: store0_def habit0_def group0_def findById_def updateById_def)

text \<open>
  Against the claim as stated: after the creator's request at time 1000 the habit of
  \<open>store0\<close> is not the habit it was with \<^verbatim>\<open>isActive\<close> false, since its \<^verbatim>\<open>updatedAt\<close> is
  1000.
\<close>

theorem deleteHabit_stamps_updatedAt:
  "findById 0 (st_habits store0) = Some habit0 \<and> h_creator habit0 = 0 \<and>
   st_habits (snd (deleteHabit 1000 0 0 store0)) =
     [habit0\<lparr>h_isActive := False, h_updatedAt := 1000\<rparr>] \<and>
   st_habits (snd (deleteHabit 1000 0 0 store0)) \<noteq> [habit0\<lparr>h_isActive := False\<rparr>] \<and>
   h_updatedAt habit0 = 0"
  by (simp add: store0_def habit0_def findById_def updateById_def deleteHabit_def)

end
